theory Spec2Isabelle
  imports Main "HOL-Library.Word"
begin

unbundle bit_operations_syntax

section \<open>Bytes, slices and the struct module\<close>

text \<open>
  A Python \<open>bytes\<close> value is a list of 8-bit words. Python's unbounded integers are
  \<open>int\<close>. Offsets into a buffer are the non-negative ones the callers pass (0, or an
  offset a decoder returned), so they are \<open>nat\<close>.
\<close>

type_synonym byte = "8 word"
type_synonym bytes = "byte list"

text \<open>The exceptions the codec raises or catches.\<close>

datatype py_error = ValueError | StructError | IndexError

text \<open>\<open>data[a:b]\<close> for \<open>0 \<le> a\<close>: the slice is cut short at the end of the data.\<close>

definition slice :: "'a list \<Rightarrow> nat \<Rightarrow> nat \<Rightarrow> 'a list" where
  "slice xs a b = take (b - a) (drop a xs)"

text \<open>
  \<open>struct.pack('<B' | '<H' | '<I' | '<Q', v)\<close>: \<open>k\<close> bytes, least significant first;
  \<open>struct.error\<close> when \<open>v\<close> is outside \<open>[0, 256^k)\<close>.
\<close>

fun le_bytes :: "nat \<Rightarrow> int \<Rightarrow> bytes" where
  "le_bytes 0 v = []"
| "le_bytes (Suc k) v = word_of_int (v mod 256) # le_bytes k (v div 256)"

definition pack_le :: "nat \<Rightarrow> int \<Rightarrow> py_error + bytes" where
  "pack_le k v = (if 0 \<le> v \<and> v < 256 ^ k then Inr (le_bytes k v) else Inl StructError)"

text \<open>
  \<open>struct.unpack('<H' | '<I' | '<Q', bs)[0]\<close>: \<open>struct.error\<close> unless \<open>bs\<close> has
  exactly \<open>k\<close> bytes. \<open>'>H'\<close> reads the most significant byte first.
\<close>

fun le_value :: "bytes \<Rightarrow> int" where
  "le_value [] = 0"
| "le_value (b # bs) = uint b + 256 * le_value bs"

definition unpack_le :: "nat \<Rightarrow> bytes \<Rightarrow> py_error + int" where
  "unpack_le k bs = (if length bs = k then Inr (le_value bs) else Inl StructError)"

definition unpack_be :: "nat \<Rightarrow> bytes \<Rightarrow> py_error + int" where
  "unpack_be k bs = (if length bs = k then Inr (le_value (rev bs)) else Inl StructError)"

section \<open>Variable-length integers\<close>

definition varint_encode :: "int \<Rightarrow> py_error + bytes" where
  "varint_encode v =
     (if v < 0xFD then pack_le 1 v
      else if v \<le> 0xFFFF then
        (case pack_le 2 v of Inl e \<Rightarrow> Inl e | Inr bs \<Rightarrow> Inr (0xFD # bs))
      else if v \<le> 0xFFFFFFFF then
        (case pack_le 4 v of Inl e \<Rightarrow> Inl e | Inr bs \<Rightarrow> Inr (0xFE # bs))
      else
        (case pack_le 8 v of Inl e \<Rightarrow> Inl e | Inr bs \<Rightarrow> Inr (0xFF # bs)))"

definition varint_decode :: "bytes \<Rightarrow> nat \<Rightarrow> py_error + (int \<times> nat)" where
  "varint_decode data offset =
     (if offset \<ge> length data then Inl ValueError
      else
        let first_byte = data ! offset in
        if first_byte < 0xFD then Inr (uint first_byte, offset + 1)
        else if first_byte = 0xFD then
          (if offset + 3 > length data then Inl ValueError
           else case unpack_le 2 (slice data (offset + 1) (offset + 3)) of
                  Inl e \<Rightarrow> Inl e
                | Inr v \<Rightarrow> Inr (v, offset + 3))
        else if first_byte = 0xFE then
          (if offset + 5 > length data then Inl ValueError
           else case unpack_le 4 (slice data (offset + 1) (offset + 5)) of
                  Inl e \<Rightarrow> Inl e
                | Inr v \<Rightarrow> Inr (v, offset + 5))
        else
          (if offset + 9 > length data then Inl ValueError
           else case unpack_le 8 (slice data (offset + 1) (offset + 9)) of
                  Inl e \<Rightarrow> Inl e
                | Inr v \<Rightarrow> Inr (v, offset + 9)))"

section \<open>SHA-256\<close>

text \<open>
  \<open>hashlib.sha256(m).digest()\<close> is the standard library's SHA-256. It is written out here
  after FIPS 180-4, on 32-bit words, so that the checksum of a frame is a value that can be
  computed: padding to a multiple of 64 bytes, the message schedule of 64 words, 64 rounds
  per block, and the eight state words written most significant byte first.
\<close>

type_synonym w32 = "32 word"
type_synonym hstate = "w32 \<times> w32 \<times> w32 \<times> w32 \<times> w32 \<times> w32 \<times> w32 \<times> w32"

definition sha_k :: "w32 list" where
  "sha_k =
    [0x428A2F98, 0x71374491, 0xB5C0FBCF, 0xE9B5DBA5, 0x3956C25B, 0x59F111F1, 0x923F82A4, 0xAB1C5ED5] @
    [0xD807AA98, 0x12835B01, 0x243185BE, 0x550C7DC3, 0x72BE5D74, 0x80DEB1FE, 0x9BDC06A7, 0xC19BF174] @
    [0xE49B69C1, 0xEFBE4786, 0x0FC19DC6, 0x240CA1CC, 0x2DE92C6F, 0x4A7484AA, 0x5CB0A9DC, 0x76F988DA] @
    [0x983E5152, 0xA831C66D, 0xB00327C8, 0xBF597FC7, 0xC6E00BF3, 0xD5A79147, 0x06CA6351, 0x14292967] @
    [0x27B70A85, 0x2E1B2138, 0x4D2C6DFC, 0x53380D13, 0x650A7354, 0x766A0ABB, 0x81C2C92E, 0x92722C85] @
    [0xA2BFE8A1, 0xA81A664B, 0xC24B8B70, 0xC76C51A3, 0xD192E819, 0xD6990624, 0xF40E3585, 0x106AA070] @
    [0x19A4C116, 0x1E376C08, 0x2748774C, 0x34B0BCB5, 0x391C0CB3, 0x4ED8AA4A, 0x5B9CCA4F, 0x682E6FF3] @
    [0x748F82EE, 0x78A5636F, 0x84C87814, 0x8CC70208, 0x90BEFFFA, 0xA4506CEB, 0xBEF9A3F7, 0xC67178F2]"

definition sha_init :: hstate where
  "sha_init = (0x6A09E667, 0xBB67AE85, 0x3C6EF372, 0xA54FF53A,
               0x510E527F, 0x9B05688C, 0x1F83D9AB, 0x5BE0CD19)"

definition rotr :: "nat \<Rightarrow> w32 \<Rightarrow> w32" where
  "rotr n x = drop_bit n x OR push_bit (32 - n) x"

definition big_sigma0 :: "w32 \<Rightarrow> w32" where
  "big_sigma0 x = rotr 2 x XOR rotr 13 x XOR rotr 22 x"

definition big_sigma1 :: "w32 \<Rightarrow> w32" where
  "big_sigma1 x = rotr 6 x XOR rotr 11 x XOR rotr 25 x"

definition small_sigma0 :: "w32 \<Rightarrow> w32" where
  "small_sigma0 x = rotr 7 x XOR rotr 18 x XOR drop_bit 3 x"

definition small_sigma1 :: "w32 \<Rightarrow> w32" where
  "small_sigma1 x = rotr 17 x XOR rotr 19 x XOR drop_bit 10 x"

definition sha_ch :: "w32 \<Rightarrow> w32 \<Rightarrow> w32 \<Rightarrow> w32" where
  "sha_ch x y z = (x AND y) XOR (NOT x AND z)"

definition sha_maj :: "w32 \<Rightarrow> w32 \<Rightarrow> w32 \<Rightarrow> w32" where
  "sha_maj x y z = (x AND y) XOR (x AND z) XOR (y AND z)"

text \<open>The message schedule: \<open>n\<close> more words, each from four earlier ones.\<close>

fun schedule :: "nat \<Rightarrow> w32 list \<Rightarrow> w32 list" where
  "schedule 0 ws = ws"
| "schedule (Suc n) ws =
     (let i = length ws
      in schedule n (ws @ [small_sigma1 (ws ! (i - 2)) + ws ! (i - 7)
                           + small_sigma0 (ws ! (i - 15)) + ws ! (i - 16)]))"

fun sha_round :: "hstate \<Rightarrow> w32 \<times> w32 \<Rightarrow> hstate" where
  "sha_round (a, b, c, d, e, f, g, h) (k, w) =
     (let t1 = h + big_sigma1 e + sha_ch e f g + k + w;
          t2 = big_sigma0 a + sha_maj a b c
      in (t1 + t2, a, b, c, d + t1, e, f, g))"

fun add_state :: "hstate \<Rightarrow> hstate \<Rightarrow> hstate" where
  "add_state (a, b, c, d, e, f, g, h) (a', b', c', d', e', f', g', h') =
     (a + a', b + b', c + c', d + d', e + e', f + f', g + g', h + h')"

fun be_word :: "bytes \<Rightarrow> w32" where
  "be_word [] = 0"
| "be_word (b # bs) = push_bit (8 * length bs) (ucast b) OR be_word bs"

fun block_words :: "nat \<Rightarrow> bytes \<Rightarrow> w32 list" where
  "block_words 0 bs = []"
| "block_words (Suc n) bs = be_word (take 4 bs) # block_words n (drop 4 bs)"

definition compress :: "hstate \<Rightarrow> bytes \<Rightarrow> hstate" where
  "compress hs block =
     add_state hs (foldl sha_round hs (zip sha_k (schedule 48 (block_words 16 block))))"

fun sha_blocks :: "nat \<Rightarrow> hstate \<Rightarrow> bytes \<Rightarrow> hstate" where
  "sha_blocks 0 hs bs = hs"
| "sha_blocks (Suc n) hs bs = sha_blocks n (compress hs (take 64 bs)) (drop 64 bs)"

definition len_bytes :: "64 word \<Rightarrow> bytes" where
  "len_bytes w =
     [ucast (drop_bit 56 w), ucast (drop_bit 48 w), ucast (drop_bit 40 w), ucast (drop_bit 32 w),
      ucast (drop_bit 24 w), ucast (drop_bit 16 w), ucast (drop_bit 8 w), ucast w]"

definition sha_pad :: "bytes \<Rightarrow> bytes" where
  "sha_pad m =
     m @ [0x80] @ replicate ((119 - length m mod 64) mod 64) 0 @ len_bytes (8 * of_nat (length m))"

definition word_bytes :: "w32 \<Rightarrow> bytes" where
  "word_bytes w = [ucast (drop_bit 24 w), ucast (drop_bit 16 w), ucast (drop_bit 8 w), ucast w]"

fun digest_of :: "hstate \<Rightarrow> bytes" where
  "digest_of (a, b, c, d, e, f, g, h) = concat (map word_bytes [a, b, c, d, e, f, g, h])"

definition sha256 :: "bytes \<Rightarrow> bytes" where
  "sha256 m = (let p = sha_pad m in digest_of (sha_blocks (length p div 64) sha_init p))"

section \<open>Frames\<close>

definition MAINNET_MAGIC :: int where
  "MAINNET_MAGIC = 0xD9B4BEF9"

definition MSG_VERACK :: bytes where
  "MSG_VERACK = [0x76, 0x65, 0x72, 0x61, 0x63, 0x6B, 0, 0, 0, 0, 0, 0]"

text \<open>\<open>bs.ljust(n, b'\x00')\<close> and \<open>bs.rstrip(b'\x00')\<close>.\<close>

definition ljust :: "nat \<Rightarrow> bytes \<Rightarrow> bytes" where
  "ljust n bs = bs @ replicate (n - length bs) 0"

definition rstrip_nul :: "bytes \<Rightarrow> bytes" where
  "rstrip_nul bs = rev (dropWhile (\<lambda>b. b = 0) (rev bs))"

definition create_message :: "bytes \<Rightarrow> bytes \<Rightarrow> int \<Rightarrow> py_error + bytes" where
  "create_message command payload magic =
     (let command_padded = ljust 12 (take 12 command);
          len = int (length payload);
          checksum = take 4 (sha256 (sha256 payload))
      in case pack_le 4 magic of
           Inl e \<Rightarrow> Inl e
         | Inr m \<Rightarrow>
             (case pack_le 4 len of
                Inl e \<Rightarrow> Inl e
              | Inr l \<Rightarrow> Inr (m @ command_padded @ l @ checksum @ payload)))"

definition create_verack_message :: "py_error + bytes" where
  "create_verack_message = create_message MSG_VERACK [] MAINNET_MAGIC"

text \<open>
  \<open>parse_message\<close> returns \<open>None\<close> on every failure and the pair \<open>(command, payload)\<close>
  otherwise. The outer sum records an exception leaving the function.
\<close>

definition parse_message :: "bytes \<Rightarrow> py_error + (bytes \<times> bytes) option" where
  "parse_message data =
     (if length data < 24 then Inr None
      else case unpack_le 4 (slice data 0 4) of
        Inl e \<Rightarrow> Inl e
      | Inr magic \<Rightarrow>
          if magic \<noteq> MAINNET_MAGIC then Inr None
          else
            let command = rstrip_nul (slice data 4 16) in
            case unpack_le 4 (slice data 16 20) of
              Inl e \<Rightarrow> Inl e
            | Inr len \<Rightarrow>
                let checksum = slice data 20 24 in
                if len > 2 * 1024 * 1024 then Inr None
                else if int (length data) < 24 + len then Inr None
                else
                  let payload = slice data 24 (24 + nat len);
                      calculated_checksum = take 4 (sha256 (sha256 payload))
                  in if calculated_checksum \<noteq> checksum then Inr None
                     else Inr (Some (command, payload)))"

text \<open>
  One decoding step of the session's drain loop (crawler.py, lines 118 to 129): the frame
  is parsed from \<open>addr_data[offset:]\<close> and the offset advances by \<open>24 + len(payload)\<close>.
\<close>

definition decode_frame :: "bytes \<Rightarrow> nat \<Rightarrow> py_error + (bytes \<times> bytes \<times> nat) option" where
  "decode_frame addr_data offset =
     (case parse_message (drop offset addr_data) of
        Inl e \<Rightarrow> Inl e
      | Inr None \<Rightarrow> Inr None
      | Inr (Some (cmd, payload)) \<Rightarrow> Inr (Some (cmd, payload, offset + (24 + length payload))))"

section \<open>Address lists\<close>

text \<open>A parsed peer is the triple \<open>(ip, port, timestamp)\<close>.\<close>

type_synonym peer = "string \<times> int \<times> int"

text \<open>\<open>str(b)\<close> for a non-negative integer, and \<open>sep.join(parts)\<close>.\<close>

definition digit_char :: "nat \<Rightarrow> char" where
  "digit_char d = ''0123456789'' ! d"

fun str_nat :: "nat \<Rightarrow> string" where
  "str_nat n = (if n < 10 then [digit_char n] else str_nat (n div 10) @ [digit_char (n mod 10)])"

declare str_nat.simps [simp del]

fun join :: "string \<Rightarrow> string list \<Rightarrow> string" where
  "join sep [] = []"
| "join sep [x] = x"
| "join sep (x # y # ys) = x @ sep @ join sep (y # ys)"

text \<open>
  The loop of \<open>parse_addr_message\<close> over \<open>range(min(count, 1000))\<close>: the first argument
  is the number of iterations left. \<open>break\<close> returns the addresses collected so far;
  \<open>continue\<close> goes on with the next iteration.
\<close>

fun addr_loop :: "nat \<Rightarrow> bytes \<Rightarrow> nat \<Rightarrow> peer list \<Rightarrow> py_error + peer list" where
  "addr_loop 0 data offset addresses = Inr addresses"
| "addr_loop (Suc n) data offset addresses =
     (if offset + 30 > length data then Inr addresses
      else
        case unpack_le 4 (slice data offset (offset + 4)) of
          Inl e \<Rightarrow> Inl e
        | Inr timestamp \<Rightarrow>
            (case unpack_le 8 (slice data (offset + 4) (offset + 4 + 8)) of
               Inl e \<Rightarrow> Inl e
             | Inr services \<Rightarrow>
                 let ip_bytes = slice data (offset + 4 + 8) (offset + 4 + 8 + 16) in
                 if take 12 ip_bytes = replicate 12 0 \<and> slice ip_bytes 12 14 = [0xFF, 0xFF]
                 then
                   let ip = join ''.'' (map (\<lambda>b. str_nat (unat b)) (slice ip_bytes 14 18)) in
                   (case unpack_be 2 (slice data (offset + 4 + 8 + 16) (offset + 4 + 8 + 16 + 2)) of
                      Inl e \<Rightarrow> Inl e
                    | Inr port \<Rightarrow>
                        addr_loop n data (offset + 4 + 8 + 16 + 2) (addresses @ [(ip, port, timestamp)]))
                 else addr_loop n data (offset + 4 + 8 + 16 + 2) addresses))"

text \<open>
  What one iteration of that loop appends for the record at \<open>offset\<close> when the record
  is complete: the peer it reads, or nothing when the record is skipped. It is used to
  state what the loop returns.
\<close>

definition record_peers :: "bytes \<Rightarrow> nat \<Rightarrow> peer list" where
  "record_peers data offset =
     (let ip_bytes = slice data (offset + 4 + 8) (offset + 4 + 8 + 16) in
      if take 12 ip_bytes = replicate 12 0 \<and> slice ip_bytes 12 14 = [0xFF, 0xFF]
      then [(join ''.'' (map (\<lambda>b. str_nat (unat b)) (slice ip_bytes 14 18)),
             le_value (rev (slice data (offset + 4 + 8 + 16) (offset + 4 + 8 + 16 + 2))),
             le_value (slice data offset (offset + 4)))]
      else [])"

text \<open>
  The body of the \<open>try\<close> block, and the function with its \<open>except (ValueError,
  struct.error, IndexError): return []\<close>.
\<close>

definition parse_addr_body :: "bytes \<Rightarrow> py_error + peer list" where
  "parse_addr_body data =
     (case varint_decode data 0 of
        Inl e \<Rightarrow> Inl e
      | Inr (count, offset) \<Rightarrow> addr_loop (nat (min count 1000)) data offset [])"

definition parse_addr_message :: "bytes \<Rightarrow> py_error + peer list" where
  "parse_addr_message data =
     (if length data < 1 then Inr []
      else case parse_addr_body data of
             Inl ValueError \<Rightarrow> Inr []
           | Inl StructError \<Rightarrow> Inr []
           | Inl IndexError \<Rightarrow> Inr []
           | Inr addresses \<Rightarrow> Inr addresses)"

text \<open>
  The frame loop of the session's drain (crawler.py, lines 116 to 131): every complete
  frame is consumed, the peers of \<open>addr\<close> frames are collected when there are any, and the
  loop stops at the first buffer position that does not parse.
\<close>

function process_frames :: "bytes \<Rightarrow> nat \<Rightarrow> peer list \<Rightarrow> py_error + (nat \<times> peer list)" where
  "process_frames addr_data offset new_peers =
     (if offset < length addr_data then
        (case decode_frame addr_data offset of
           Inl e \<Rightarrow> Inl e
         | Inr None \<Rightarrow> Inr (offset, new_peers)
         | Inr (Some (cmd, payload, next_offset)) \<Rightarrow>
             if cmd = [0x61, 0x64, 0x64, 0x72] then
               (case parse_addr_message payload of
                  Inl e \<Rightarrow> Inl e
                | Inr peers \<Rightarrow>
                    process_frames addr_data next_offset
                      (if peers \<noteq> [] then new_peers @ peers else new_peers))
             else process_frames addr_data next_offset new_peers)
      else Inr (offset, new_peers))"
  by pat_completeness auto
termination
  by (relation "measure (\<lambda>(addr_data, offset, new_peers). length addr_data - offset)")
     (auto simp: decode_frame_def split: sum.splits option.splits)

text \<open>
  The payload of scenario S4: a count of 2, then the IPv4-mapped record of
  \<open>10.0.0.1:8333\<close> (ten zero bytes, \<open>FF FF\<close>, the four address bytes) and a record with the
  IPv6 address \<open>2001:db8::1\<close>; both with timestamp \<open>0x01020304\<close> and services 1.
\<close>

definition s4_payload :: bytes where
  "s4_payload =
     [0x02] @
     [0x04, 0x03, 0x02, 0x01] @ [0x01, 0, 0, 0, 0, 0, 0, 0] @
     [0, 0, 0, 0, 0, 0, 0, 0, 0, 0, 0xFF, 0xFF, 0x0A, 0x00, 0x00, 0x01] @ [0x20, 0x8D] @
     [0x04, 0x03, 0x02, 0x01] @ [0x01, 0, 0, 0, 0, 0, 0, 0] @
     [0x20, 0x01, 0x0D, 0xB8, 0, 0, 0, 0, 0, 0, 0, 0, 0, 0, 0, 0x01] @ [0x20, 0x8D]"

text \<open>
  A payload with a count of 2 and two records that the loop accepts (twelve zero bytes,
  \<open>FF FF\<close>, two more bytes); cut after 40 bytes it ends inside the second record.
\<close>

definition two_records :: bytes where
  "two_records =
     [0x02] @
     [0x04, 0x03, 0x02, 0x01] @ [0x01, 0, 0, 0, 0, 0, 0, 0] @
     [0, 0, 0, 0, 0, 0, 0, 0, 0, 0, 0, 0, 0xFF, 0xFF, 0x0A, 0x01] @ [0x20, 0x8D] @
     [0x08, 0x07, 0x06, 0x05] @ [0x01, 0, 0, 0, 0, 0, 0, 0] @
     [0, 0, 0, 0, 0, 0, 0, 0, 0, 0, 0, 0, 0xFF, 0xFF, 0x0A, 0x02] @ [0x20, 0x8E]"

section \<open>The crawler\<close>

text \<open>
  An endpoint is the pair \<open>(ip, port)\<close>. The crawler object holds the concurrency bound,
  the three endpoint sets and the buffer of records; the timeout and the semaphore (whose
  value is \<open>max_concurrent\<close>) carry no data of their own.
\<close>

type_synonym endpoint = "string \<times> int"

record node_info =
  ni_ip :: string
  ni_port :: int
  ni_version :: int
  ni_services :: int
  ni_user_agent :: string
  ni_timestamp :: string
  ni_peers_discovered :: int

record crawler =
  max_concurrent :: int
  discovered_nodes :: "endpoint set"
  crawled_nodes :: "endpoint set"
  node_data :: "node_info list"
  failed_nodes :: "endpoint set"

text \<open>
  \<open>BitcoinNodeCrawler(max_concurrent)\<close>: \<open>asyncio.Semaphore\<close> raises \<open>ValueError\<close> for a
  negative value; otherwise all sets and the buffer start empty.
\<close>

definition new_crawler :: "int \<Rightarrow> py_error + crawler" where
  "new_crawler mc =
     (if mc < 0 then Inl ValueError
      else Inr \<lparr>max_concurrent = mc, discovered_nodes = {}, crawled_nodes = {},
                node_data = [], failed_nodes = {}\<rparr>)"

text \<open>
  The standard library's \<open>ipaddress.ip_address\<close> is a parameter of the model: it maps a
  string to the three flags the crawler reads, or to \<open>None\<close> where it raises
  \<open>ValueError\<close>.
\<close>

record ip_obj =
  is_private :: bool
  is_loopback :: bool
  is_link_local :: bool

type_synonym ip_parser = "string \<Rightarrow> ip_obj option"

definition is_private_ip :: "ip_parser \<Rightarrow> string \<Rightarrow> bool" where
  "is_private_ip ip_address ip =
     (case ip_address ip of
        None \<Rightarrow> True
      | Some ip_obj \<Rightarrow> is_private ip_obj \<or> is_loopback ip_obj \<or> is_link_local ip_obj)"

text \<open>
  What the network makes of one session is the environment's choice: the connection
  fails (the outer \<open>except\<close>: the endpoint is recorded in \<open>failed_nodes\<close>), the exchange
  is given up with \<open>return None\<close>, or the session completes with the version fields, a
  timestamp and the peers parsed from the \<open>addr\<close> frames.
\<close>

datatype outcome =
    ConnectFailed
  | Aborted
  | Completed int int string string "peer list"

text \<open>
  \<open>connect_to_node\<close> up to its first suspension (lines 41 to 44): nothing happens for an
  endpoint already crawled, otherwise it is added to \<open>crawled_nodes\<close>.
\<close>

definition session_begin :: "endpoint \<Rightarrow> crawler \<Rightarrow> crawler option" where
  "session_begin ep c =
     (if ep \<in> crawled_nodes c then None
      else Some (c\<lparr>crawled_nodes := insert ep (crawled_nodes c)\<rparr>))"

text \<open>Lines 172 to 175, for one parsed peer.\<close>

fun offer_peer :: "ip_parser \<Rightarrow> crawler \<Rightarrow> peer \<Rightarrow> crawler" where
  "offer_peer ip_address c (peer_ip, peer_port, ts) =
     (if \<not> is_private_ip ip_address peer_ip then
        (if (peer_ip, peer_port) \<notin> discovered_nodes c \<and> (peer_ip, peer_port) \<notin> crawled_nodes c
         then c\<lparr>discovered_nodes := insert (peer_ip, peer_port) (discovered_nodes c)\<rparr>
         else c)
      else c)"

text \<open>
  The rest of \<open>connect_to_node\<close>, after the last suspension: the updates of the sets and
  the returned record, if any. No suspension lies between these updates.
\<close>

fun session_end :: "ip_parser \<Rightarrow> endpoint \<Rightarrow> outcome \<Rightarrow> crawler \<Rightarrow> crawler \<times> node_info option" where
  "session_end ip_address ep ConnectFailed c =
     (c\<lparr>failed_nodes := insert ep (failed_nodes c)\<rparr>, None)"
| "session_end ip_address ep Aborted c = (c, None)"
| "session_end ip_address ep (Completed version services user_agent timestamp new_peers) c =
     (foldl (offer_peer ip_address) c new_peers,
      Some \<lparr>ni_ip = fst ep, ni_port = snd ep, ni_version = version, ni_services = services,
            ni_user_agent = user_agent, ni_timestamp = timestamp,
            ni_peers_discovered = int (length new_peers)\<rparr>)"

text \<open>
  A batch under \<open>asyncio.gather\<close> is a sequence of such atomic steps, in an order the
  scheduler and the network choose. A session can only end after it began and while it is
  in flight; the results are kept by endpoint.
\<close>

datatype event = Begin endpoint | End endpoint outcome

fun begins :: "event list \<Rightarrow> endpoint list" where
  "begins [] = []"
| "begins (Begin ep # evs) = ep # begins evs"
| "begins (End ep out # evs) = begins evs"

fun run_events ::
  "ip_parser \<Rightarrow> event list \<Rightarrow> crawler \<Rightarrow> endpoint set \<Rightarrow> (endpoint \<rightharpoonup> node_info)
   \<Rightarrow> (crawler \<times> endpoint set \<times> (endpoint \<rightharpoonup> node_info)) option" where
  "run_events ip_address [] c in_flight results = Some (c, in_flight, results)"
| "run_events ip_address (Begin ep # evs) c in_flight results =
     (case session_begin ep c of
        None \<Rightarrow> run_events ip_address evs c in_flight results
      | Some c' \<Rightarrow> run_events ip_address evs c' (insert ep in_flight) results)"
| "run_events ip_address (End ep out # evs) c in_flight results =
     (if ep \<notin> in_flight then None
      else
        case session_end ip_address ep out c of
          (c', None) \<Rightarrow> run_events ip_address evs c' (in_flight - {ep}) results
        | (c', Some info) \<Rightarrow> run_events ip_address evs c' (in_flight - {ep}) (results(ep \<mapsto> info)))"

text \<open>
  Lines 266 to 273: the sessions of \<open>to_crawl\<close> are started in order, all of them are
  awaited, and the records of the successful ones are appended in the order of
  \<open>to_crawl\<close>. \<open>None\<close> marks a sequence of events that is no run of the batch.
\<close>

definition run_batch :: "ip_parser \<Rightarrow> endpoint list \<Rightarrow> event list \<Rightarrow> crawler \<Rightarrow> crawler option" where
  "run_batch ip_address to_crawl events c =
     (if begins events \<noteq> to_crawl then None
      else
        case run_events ip_address events c {} Map.empty of
          None \<Rightarrow> None
        | Some (c', in_flight, results) \<Rightarrow>
            if in_flight \<noteq> {} then None
            else Some (c'\<lparr>node_data := node_data c' @ List.map_filter results to_crawl\<rparr>))"

text \<open>
  \<open>list(discovered_nodes - crawled_nodes)[:max_concurrent]\<close>: the order of a set's
  elements is the interpreter's choice, so the list is given by the environment and
  checked to be such a slice. \<open>slice_len n k\<close> is the length of \<open>xs[:k]\<close> for a list of
  \<open>n\<close> elements.
\<close>

definition slice_len :: "nat \<Rightarrow> int \<Rightarrow> int" where
  "slice_len n k = (if 0 \<le> k then min k (int n) else max 0 (int n + k))"

definition valid_selection :: "crawler \<Rightarrow> endpoint list \<Rightarrow> bool" where
  "valid_selection c to_crawl \<longleftrightarrow>
     distinct to_crawl
     \<and> set to_crawl \<subseteq> discovered_nodes c - crawled_nodes c
     \<and> int (length to_crawl)
         = slice_len (card (discovered_nodes c - crawled_nodes c)) (max_concurrent c)"

definition seed_step :: "ip_parser \<Rightarrow> crawler \<Rightarrow> endpoint \<Rightarrow> crawler" where
  "seed_step ip_address c ep =
     (if \<not> is_private_ip ip_address (fst ep)
      then c\<lparr>discovered_nodes := insert ep (discovered_nodes c)\<rparr>
      else c)"

definition seed_phase :: "ip_parser \<Rightarrow> endpoint list \<Rightarrow> crawler \<Rightarrow> crawler" where
  "seed_phase ip_address seed_nodes c = foldl (seed_step ip_address) c seed_nodes"

text \<open>
  The \<open>while\<close> loop of \<open>crawl\<close>. Each iteration takes the environment's choices for it:
  the selection and the events of the batch. The result is \<open>None\<close> when the given
  choices end before the loop does or are not choices the program can meet. The progress
  callback is absent here, as in both callers.
\<close>

fun crawl_loop ::
  "ip_parser \<Rightarrow> int \<Rightarrow> (endpoint list \<times> event list) list \<Rightarrow> crawler \<Rightarrow> crawler option" where
  "crawl_loop ip_address max_nodes env c =
     (if int (card (crawled_nodes c)) < max_nodes \<and> discovered_nodes c \<noteq> {} then
        (case env of
           [] \<Rightarrow> None
         | (to_crawl, events) # rest \<Rightarrow>
             if \<not> valid_selection c to_crawl then None
             else if to_crawl = [] then Some c
             else
               (case run_batch ip_address to_crawl events c of
                  None \<Rightarrow> None
                | Some c' \<Rightarrow> crawl_loop ip_address max_nodes rest c'))
      else Some c)"

declare crawl_loop.simps [simp del]

definition crawl ::
  "ip_parser \<Rightarrow> endpoint list \<Rightarrow> int \<Rightarrow> (endpoint list \<times> event list) list \<Rightarrow> crawler
   \<Rightarrow> crawler option" where
  "crawl ip_address seed_nodes max_nodes env c =
     crawl_loop ip_address max_nodes env (seed_phase ip_address seed_nodes c)"

text \<open>
  The states at the iteration boundaries of the same loop: the state after the seed
  phase, then the state after each awaited batch.
\<close>

fun loop_boundaries ::
  "ip_parser \<Rightarrow> int \<Rightarrow> (endpoint list \<times> event list) list \<Rightarrow> crawler \<Rightarrow> crawler list" where
  "loop_boundaries ip_address max_nodes env c =
     c # (if int (card (crawled_nodes c)) < max_nodes \<and> discovered_nodes c \<noteq> {} then
            (case env of
               [] \<Rightarrow> []
             | (to_crawl, events) # rest \<Rightarrow>
                 if \<not> valid_selection c to_crawl then []
                 else if to_crawl = [] then []
                 else
                   (case run_batch ip_address to_crawl events c of
                      None \<Rightarrow> []
                    | Some c' \<Rightarrow> loop_boundaries ip_address max_nodes rest c'))
          else [])"

declare loop_boundaries.simps [simp del]

definition crawl_boundaries ::
  "ip_parser \<Rightarrow> endpoint list \<Rightarrow> int \<Rightarrow> (endpoint list \<times> event list) list \<Rightarrow> crawler
   \<Rightarrow> crawler list" where
  "crawl_boundaries ip_address seed_nodes max_nodes env c =
     loop_boundaries ip_address max_nodes env (seed_phase ip_address seed_nodes c)"

text \<open>
  A parser for the examples below: it knows \<open>8.8.8.8\<close> and \<open>1.1.1.1\<close> as public
  addresses and \<open>10.0.0.1\<close> as a private one, and rejects every other string.
\<close>

definition example_parser :: ip_parser where
  "example_parser ip =
     (if ip = ''8.8.8.8'' \<or> ip = ''1.1.1.1''
      then Some \<lparr>is_private = False, is_loopback = False, is_link_local = False\<rparr>
      else if ip = ''10.0.0.1''
      then Some \<lparr>is_private = True, is_loopback = False, is_link_local = False\<rparr>
      else None)"

text \<open>
  The invariant of the registry used below: the crawled set is finite, holds every failed
  endpoint, and no discovered address is rejected by \<open>is_private_ip\<close>.
\<close>

definition crawl_inv :: "ip_parser \<Rightarrow> crawler \<Rightarrow> bool" where
  "crawl_inv ip_address c \<longleftrightarrow>
     finite (crawled_nodes c)
     \<and> failed_nodes c \<subseteq> crawled_nodes c
     \<and> (\<forall>ep \<in> discovered_nodes c. \<not> is_private_ip ip_address (fst ep))"

text \<open>
  An example run with two seeds, \<open>max_concurrent = 2\<close> and \<open>max_nodes = 1\<close>: both
  sessions begin, the one to \<open>1.1.1.1\<close> completes and reports a private address, a string
  that is no address and its own address, and the connection to \<open>8.8.8.8\<close> fails.
\<close>

definition ep_a :: endpoint where "ep_a = (''8.8.8.8'', 8333)"
definition ep_b :: endpoint where "ep_b = (''1.1.1.1'', 8333)"

definition fresh2 :: crawler where
  "fresh2 = \<lparr>max_concurrent = 2, discovered_nodes = {}, crawled_nodes = {},
             node_data = [], failed_nodes = {}\<rparr>"

definition env2 :: "(endpoint list \<times> event list) list" where
  "env2 = [([ep_a, ep_b],
            [Begin ep_a, Begin ep_b,
             End ep_b (Completed 70015 1 ''/Satoshi:24.0.1/'' ''2024-01-01T00:00:00''
                         [(''10.0.0.1'', 8333, 0), (''not an ip'', 8333, 0), (''1.1.1.1'', 8333, 0)]),
             End ep_a ConnectFailed])]"

definition after2 :: crawler where
  "after2 = \<lparr>max_concurrent = 2, discovered_nodes = {ep_b, ep_a}, crawled_nodes = {ep_b, ep_a},
     node_data = [\<lparr>ni_ip = ''1.1.1.1'', ni_port = 8333, ni_version = 70015, ni_services = 1,
                   ni_user_agent = ''/Satoshi:24.0.1/'', ni_timestamp = ''2024-01-01T00:00:00'',
                   ni_peers_discovered = 3\<rparr>],
     failed_nodes = {ep_a}\<rparr>"

definition fresh0 :: crawler where
  "fresh0 = \<lparr>max_concurrent = 0, discovered_nodes = {}, crawled_nodes = {},
             node_data = [], failed_nodes = {}\<rparr>"

section \<open>Little-endian packing: basic facts\<close>

lemma length_le_bytes: "length (le_bytes k v) = k"
  by (induction k arbitrary: v) simp_all

lemma uint_byte_of_int: "uint (word_of_int (v mod 256) :: byte) = v mod 256"
  by (simp add: uint_word_of_int take_bit_eq_mod)

lemma div_lt_256: "v < 256 * (m::int) \<Longrightarrow> v div 256 < m"
  by presburger

lemma le_value_le_bytes:
  "0 \<le> v \<Longrightarrow> v < 256 ^ k \<Longrightarrow> le_value (le_bytes k v) = v"
proof (induction k arbitrary: v)
  case 0
  then show ?case by simp
next
  case (Suc k)
  have "0 \<le> v div 256" using Suc.prems(1) by simp
  moreover have "v div 256 < 256 ^ k"
  proof -
    have "v < 256 * (256 ^ k :: int)" using Suc.prems(2) by simp
    then show ?thesis by (rule div_lt_256)
  qed
  ultimately have "le_value (le_bytes k (v div 256)) = v div 256" by (rule Suc.IH)
  then show ?case by (simp add: uint_byte_of_int)
qed

lemma le_value_nonneg: "0 \<le> le_value bs"
  by (induction bs) simp_all

lemma le_value_bound: "le_value bs < 256 ^ length bs"
proof (induction bs)
  case Nil
  then show ?case by simp
next
  case (Cons b bs)
  have "uint b < 256" using uint_bounded [of b] by simp
  with Cons show ?case by simp
qed

lemma slice_tail: "length xs = k \<Longrightarrow> slice (x # xs) (Suc 0) (Suc k) = xs"
  by (simp add: slice_def)

section \<open>Var-int round trip\<close>

lemma varint_roundtrip_general:
  assumes "0 \<le> n" and "n < 2 ^ 64"
  shows "\<exists>bs. varint_encode n = Inr bs \<and> varint_decode bs 0 = Inr (n, length bs)"
proof -
  consider "n < 0xFD" | "0xFD \<le> n" "n \<le> 0xFFFF" | "0xFFFF < n" "n \<le> 0xFFFFFFFF"
    | "0xFFFFFFFF < n" by linarith
  then show ?thesis
  proof cases
    case 1
    have b: "(word_of_int n :: byte) < 0xFD"
      using 1 assms(1) by (simp add: word_less_alt uint_word_of_int take_bit_eq_mod)
    have u: "uint (word_of_int n :: byte) = n"
      using 1 assms(1) by (simp add: uint_word_of_int take_bit_eq_mod)
    have m: "n mod 256 = n" using 1 assms(1) by simp
    show ?thesis
      using 1 assms(1) b u m
      by (simp add: varint_encode_def varint_decode_def pack_le_def numeral_eq_Suc)
  next
    case 2
    have e: "varint_encode n = Inr (0xFD # le_bytes 2 n)"
      using 2 assms(1) by (simp add: varint_encode_def pack_le_def)
    have v: "le_value (le_bytes 2 n) = n"
      using 2 assms(1) by (intro le_value_le_bytes) simp_all
    have s: "slice (0xFD # le_bytes 2 n) (Suc 0) 3 = le_bytes 2 n"
      using slice_tail [of "le_bytes 2 n" 2 "0xFD"] by (simp add: length_le_bytes)
    have "varint_decode (0xFD # le_bytes 2 n) 0 = Inr (n, 3)"
      by (simp add: varint_decode_def unpack_le_def s v length_le_bytes)
    with e show ?thesis by (simp add: length_le_bytes)
  next
    case 3
    have e: "varint_encode n = Inr (0xFE # le_bytes 4 n)"
      using 3 assms(1) by (simp add: varint_encode_def pack_le_def)
    have v: "le_value (le_bytes 4 n) = n"
      using 3 assms(1) by (intro le_value_le_bytes) simp_all
    have s: "slice (0xFE # le_bytes 4 n) (Suc 0) 5 = le_bytes 4 n"
      using slice_tail [of "le_bytes 4 n" 4 "0xFE"] by (simp add: length_le_bytes)
    have "varint_decode (0xFE # le_bytes 4 n) 0 = Inr (n, 5)"
      by (simp add: varint_decode_def unpack_le_def s v length_le_bytes)
    with e show ?thesis by (simp add: length_le_bytes)
  next
    case 4
    have e: "varint_encode n = Inr (0xFF # le_bytes 8 n)"
      using 4 assms by (simp add: varint_encode_def pack_le_def)
    have v: "le_value (le_bytes 8 n) = n"
      using 4 assms by (intro le_value_le_bytes) simp_all
    have s: "slice (0xFF # le_bytes 8 n) (Suc 0) 9 = le_bytes 8 n"
      using slice_tail [of "le_bytes 8 n" 8 "0xFF"] by (simp add: length_le_bytes)
    have "varint_decode (0xFF # le_bytes 8 n) 0 = Inr (n, 9)"
      by (simp add: varint_decode_def unpack_le_def s v length_le_bytes)
    with e show ?thesis by (simp add: length_le_bytes)
  qed
qed

lemma varint_boundary_lengths:
  "map (\<lambda>v. map_sum id length (varint_encode v))
       [0, 0xFC, 0xFD, 0xFFFF, 0x10000, 0xFFFFFFFF, 0x100000000]
   = [Inr 1, Inr 1, Inr 3, Inr 3, Inr 5, Inr 5, Inr 9]"
  by (simp add: varint_encode_def pack_le_def length_le_bytes)

text \<open>
  Claim C4. For every \<open>n\<close> in \<open>[0, 2^64)\<close>, \<open>varint_encode n\<close> returns a byte string
  \<open>bs\<close> (it does not raise) and \<open>varint_decode bs 0\<close> returns \<open>(n, len bs)\<close>; and the
  inputs 0, 0xFC, 0xFD, 0xFFFF, 0x10000, 0xFFFFFFFF, 0x100000000 encode to 1, 1, 3, 3, 5, 5
  and 9 bytes.
\<close>

theorem varint_roundtrip:
  "(0 \<le> n \<and> n < 2 ^ 64 \<longrightarrow>
      (\<exists>bs. varint_encode n = Inr bs \<and> varint_decode bs 0 = Inr (n, length bs)))
   \<and> map (\<lambda>v. map_sum id length (varint_encode v))
          [0, 0xFC, 0xFD, 0xFFFF, 0x10000, 0xFFFFFFFF, 0x100000000]
      = [Inr 1, Inr 1, Inr 3, Inr 3, Inr 5, Inr 5, Inr 9]"
  using varint_roundtrip_general [of n] varint_boundary_lengths by blast

theorem varint_roundtrip_witness:
  "(0::int) \<le> 0x10000 \<and> (0x10000::int) < 2 ^ 64
   \<and> (\<exists>bs. varint_encode 0x10000 = Inr bs \<and> varint_decode bs 0 = Inr (0x10000, length bs))"
  using varint_roundtrip [of "0x10000"] by simp

section \<open>Frames: encoding and decoding\<close>

lemma length_word_bytes: "length (word_bytes w) = 4"
  by (simp add: word_bytes_def)

lemma length_digest_of: "length (digest_of hs) = 32"
  by (cases hs rule: digest_of.cases) (simp add: length_word_bytes)

lemma length_sha256: "length (sha256 m) = 32"
  by (simp add: sha256_def Let_def length_digest_of)

lemma length_checksum: "length (take 4 (sha256 (sha256 p))) = 4"
  by (simp add: length_sha256)

lemma rstrip_nul_replicate: "rstrip_nul (xs @ replicate n 0) = rstrip_nul xs"
proof -
  have "dropWhile (\<lambda>b. b = 0) (replicate n (0::byte) @ ys) = dropWhile (\<lambda>b. b = 0) ys" for ys
    by (induction n) simp_all
  then show ?thesis by (simp add: rstrip_nul_def)
qed

lemma rstrip_nul_id: "xs = [] \<or> last xs \<noteq> 0 \<Longrightarrow> rstrip_nul xs = xs"
proof (cases xs rule: rev_cases)
  case Nil
  then show ?thesis by (simp add: rstrip_nul_def)
next
  case (snoc ys y)
  assume "xs = [] \<or> last xs \<noteq> 0"
  with snoc show ?thesis by (simp add: rstrip_nul_def)
qed

lemma rstrip_ljust:
  "length command \<le> 12 \<Longrightarrow> command = [] \<or> last command \<noteq> 0 \<Longrightarrow>
   rstrip_nul (ljust 12 (take 12 command)) = command"
  by (simp add: ljust_def rstrip_nul_replicate rstrip_nul_id)

lemma length_ljust: "length bs \<le> n \<Longrightarrow> length (ljust n bs) = n"
  by (simp add: ljust_def)

lemma frame_slices:
  assumes "length m = 4" "length c = 12" "length l = 4" "length k = 4"
  shows "slice (m @ c @ l @ k @ p) 0 4 = m"
    and "slice (m @ c @ l @ k @ p) 4 16 = c"
    and "slice (m @ c @ l @ k @ p) 16 20 = l"
    and "slice (m @ c @ l @ k @ p) 20 24 = k"
    and "slice (m @ c @ l @ k @ p) 24 (24 + length p) = p"
  using assms by (simp_all add: slice_def)

lemma parse_message_frame:
  assumes m: "length m = 4" "le_value m = MAINNET_MAGIC"
    and c: "length c = 12"
    and l: "length l = 4" "le_value l = int (length p)"
    and p: "length p \<le> 2 * 1024 * 1024"
  shows "parse_message (m @ c @ l @ take 4 (sha256 (sha256 p)) @ p) = Inr (Some (rstrip_nul c, p))"
proof -
  let ?k = "take 4 (sha256 (sha256 p))"
  let ?F = "m @ c @ l @ ?k @ p"
  have k: "length ?k = 4" by (rule length_checksum)
  note sl = frame_slices [OF m(1) c l(1) k, of p]
  have len: "length ?F = 24 + length p" using m(1) c l(1) k by simp
  show ?thesis
    unfolding parse_message_def
    using p by (simp add: sl len unpack_le_def m c l k Let_def del: length_append)
qed

lemma create_message_frame:
  assumes "0 \<le> magic" "magic < 2 ^ 32" "length payload < 2 ^ 32"
  shows "create_message command payload magic =
         Inr (le_bytes 4 magic @ ljust 12 (take 12 command) @ le_bytes 4 (int (length payload))
              @ take 4 (sha256 (sha256 payload)) @ payload)"
proof -
  have "int (length payload) < 256 ^ 4" using assms(3) by simp
  moreover have "magic < 256 ^ 4" using assms(2) by simp
  ultimately show ?thesis using assms(1) by (simp add: create_message_def pack_le_def Let_def)
qed

lemma frame_roundtrip:
  assumes "length command \<le> 12" "command = [] \<or> last command \<noteq> 0"
    and "length payload \<le> 2 * 1024 * 1024"
  shows "\<exists>F. create_message command payload MAINNET_MAGIC = Inr F
             \<and> decode_frame F 0 = Inr (Some (command, payload, length F))"
proof -
  let ?m = "le_bytes 4 MAINNET_MAGIC"
  let ?c = "ljust 12 (take 12 command)"
  let ?l = "le_bytes 4 (int (length payload))"
  let ?F = "?m @ ?c @ ?l @ take 4 (sha256 (sha256 payload)) @ payload"
  have cm: "create_message command payload MAINNET_MAGIC = Inr ?F"
    using assms(3) by (intro create_message_frame) (simp_all add: MAINNET_MAGIC_def)
  have vm: "le_value ?m = MAINNET_MAGIC"
    by (intro le_value_le_bytes) (simp_all add: MAINNET_MAGIC_def)
  have vl: "le_value ?l = int (length payload)"
    using assms(3) by (intro le_value_le_bytes) simp_all
  have lc: "length ?c = 12" by (simp add: length_ljust)
  have pm: "parse_message ?F = Inr (Some (rstrip_nul ?c, payload))"
    by (rule parse_message_frame [OF length_le_bytes vm lc length_le_bytes vl assms(3)])
  have lf: "length ?F = 24 + length payload"
    by (simp add: lc length_le_bytes length_sha256)
  have "decode_frame ?F 0 = Inr (Some (command, payload, length ?F))"
    unfolding decode_frame_def using pm lf rstrip_ljust [OF assms(1,2)] by simp
  with cm show ?thesis by blast
qed

lemma parse_message_total: "\<exists>r. parse_message data = Inr r"
proof (cases "length data < 24")
  case True
  then show ?thesis by (simp add: parse_message_def)
next
  case False
  then have "length (slice data 0 4) = 4" "length (slice data 16 20) = 4"
    by (simp_all add: slice_def)
  then show ?thesis
    by (simp add: parse_message_def unpack_le_def Let_def)
qed

lemma parse_message_Some:
  assumes "parse_message data = Inr (Some (command, payload))"
  shows "length payload \<le> 2 * 1024 * 1024"
    and "take 4 (sha256 (sha256 payload)) = slice data 20 24"
    and "command = rstrip_nul (slice data 4 16)"
    and "payload = slice data 24 (24 + nat (le_value (slice data 16 20)))"
    and "24 + length payload \<le> length data"
  using assms
  by (auto simp: parse_message_def unpack_le_def Let_def slice_def split: if_splits sum.splits)

lemma parse_message_None_iff_general:
  "parse_message data = Inr None \<longleftrightarrow>
     (length data < 24
      \<or> le_value (slice data 0 4) \<noteq> MAINNET_MAGIC
      \<or> le_value (slice data 16 20) > 2 * 1024 * 1024
      \<or> int (length data) < 24 + le_value (slice data 16 20)
      \<or> take 4 (sha256 (sha256 (slice data 24 (24 + nat (le_value (slice data 16 20))))))
          \<noteq> slice data 20 24)"
proof (cases "length data < 24")
  case True
  then show ?thesis by (simp add: parse_message_def)
next
  case False
  then have "length (slice data 0 4) = 4" "length (slice data 16 20) = 4"
    by (simp_all add: slice_def)
  with False show ?thesis
    by (simp add: parse_message_def unpack_le_def Let_def)
qed

text \<open>
  Claim C2, as amended. \<open>parse_message\<close> takes no offset and no network parameter and has a
  single failure value: it returns \<open>None\<close> exactly when the buffer has fewer than 24 bytes,
  the magic differs from the mainnet magic, the length field exceeds 2 MiB, fewer than
  \<open>24 + length\<close> bytes are present, or the checksum does not match; otherwise it
  returns the pair of the command without its trailing NUL bytes and the payload.
\<close>

theorem parse_message_None_iff:
  "(parse_message data = Inr None \<longleftrightarrow>
     (length data < 24
      \<or> le_value (slice data 0 4) \<noteq> MAINNET_MAGIC
      \<or> le_value (slice data 16 20) > 2 * 1024 * 1024
      \<or> int (length data) < 24 + le_value (slice data 16 20)
      \<or> take 4 (sha256 (sha256 (slice data 24 (24 + nat (le_value (slice data 16 20))))))
          \<noteq> slice data 20 24))
   \<and> (parse_message data \<noteq> Inr None \<longrightarrow>
        parse_message data
        = Inr (Some (rstrip_nul (slice data 4 16),
                     slice data 24 (24 + nat (le_value (slice data 16 20))))))"
proof -
  obtain r where r: "parse_message data = Inr r" using parse_message_total by blast
  have "parse_message data \<noteq> Inr None \<longrightarrow>
        parse_message data
        = Inr (Some (rstrip_nul (slice data 4 16),
                     slice data 24 (24 + nat (le_value (slice data 16 20)))))"
  proof (cases r)
    case None
    with r show ?thesis by simp
  next
    case (Some cp)
    obtain command payload where "cp = (command, payload)" by (cases cp)
    with r Some have p: "parse_message data = Inr (Some (command, payload))" by simp
    from parse_message_Some(3,4) [OF p] p show ?thesis by simp
  qed
  with parse_message_None_iff_general [of data] show ?thesis by blast
qed

theorem parse_message_None_iff_witness:
  "length (replicate 24 (0::byte)) = 24
   \<and> le_value (slice (replicate 24 0) 0 4) \<noteq> MAINNET_MAGIC
   \<and> parse_message (replicate 24 0) = Inr None"
proof -
  have m: "le_value (slice (replicate 24 0) 0 4) \<noteq> MAINNET_MAGIC"
    by (simp add: slice_def MAINNET_MAGIC_def eval_nat_numeral)
  then have "parse_message (replicate 24 0) = Inr None"
    using parse_message_None_iff [of "replicate 24 0"] by blast
  with m show ?thesis by simp
qed

text \<open>
  Claim C2 as stated fails: a truncated header (the empty buffer, ``incomplete'') and a
  complete 24-byte header with a wrong magic (``malformed'') give the same result, so the
  two failure outcomes are not distinguished.
\<close>

theorem parse_message_failures_not_distinguished:
  "parse_message [] = Inr None \<and> parse_message (replicate 24 0) = Inr None
   \<and> parse_message [] = parse_message (replicate 24 0)"
proof -
  have a: "parse_message [] = Inr None" by (simp add: parse_message_def)
  have "le_value (slice (replicate 24 0) 0 4) \<noteq> MAINNET_MAGIC"
    by (simp add: slice_def MAINNET_MAGIC_def eval_nat_numeral)
  then have b: "parse_message (replicate 24 0) = Inr None"
    by (simp add: parse_message_None_iff_general)
  from a b show ?thesis by simp
qed

text \<open>
  Claim C3. For every command of at most 12 bytes without a trailing NUL byte and every
  payload of at most 2 MiB, \<open>create_message\<close> with the mainnet magic returns a frame \<open>F\<close>,
  and decoding \<open>F\<close> at offset 0 yields the original command and payload and the next offset
  \<open>len(F)\<close>.
\<close>

theorem create_then_decode:
  "length command \<le> 12 \<Longrightarrow> command = [] \<or> last command \<noteq> 0 \<Longrightarrow>
   length payload \<le> 2 * 1024 * 1024 \<Longrightarrow>
   \<exists>F. create_message command payload MAINNET_MAGIC = Inr F
       \<and> decode_frame F 0 = Inr (Some (command, payload, length F))"
  by (rule frame_roundtrip)

theorem create_then_decode_witness:
  "length [0x61, 0x64, 0x64, 0x72 :: byte] \<le> 12
   \<and> last [0x61, 0x64, 0x64, 0x72 :: byte] \<noteq> 0
   \<and> length [0x01 :: byte] \<le> 2 * 1024 * 1024
   \<and> (\<exists>F. create_message [0x61, 0x64, 0x64, 0x72] [0x01] MAINNET_MAGIC = Inr F
          \<and> decode_frame F 0 = Inr (Some ([0x61, 0x64, 0x64, 0x72], [0x01], length F)))"
  using create_then_decode [of "[0x61, 0x64, 0x64, 0x72]" "[0x01]"] by simp

section \<open>Address lists: totality and partial results\<close>

lemma length_slice: "b \<le> length xs \<Longrightarrow> length (slice xs a b) = b - a"
  by (simp add: slice_def)

lemma addr_loop_extends:
  "\<exists>r. addr_loop n data offset addresses = Inr (addresses @ r)"
proof (induction n arbitrary: offset addresses)
  case 0
  then show ?case by simp
next
  case (Suc n)
  show ?case
  proof (cases "offset + 30 > length data")
    case True
    then show ?thesis by simp
  next
    case False
    then have l: "length (slice data offset (offset + 4)) = 4"
      "length (slice data (offset + 4) (offset + 4 + 8)) = 8"
      "length (slice data (offset + 4 + 8 + 16) (offset + 4 + 8 + 16 + 2)) = 2"
      by (simp_all add: slice_def)
    let ?ip = "slice data (offset + 4 + 8) (offset + 4 + 8 + 16)"
    let ?peer = "(join ''.'' (map (\<lambda>b. str_nat (unat b)) (slice ?ip 14 18)),
                  le_value (rev (slice data (offset + 4 + 8 + 16) (offset + 4 + 8 + 16 + 2))),
                  le_value (slice data offset (offset + 4)))"
    from Suc.IH [of "offset + 4 + 8 + 16 + 2" addresses]
    obtain r1 where r1: "addr_loop n data (offset + 4 + 8 + 16 + 2) addresses = Inr (addresses @ r1)"
      by blast
    from Suc.IH [of "offset + 4 + 8 + 16 + 2" "addresses @ [?peer]"]
    obtain r2 where r2: "addr_loop n data (offset + 4 + 8 + 16 + 2) (addresses @ [?peer])
        = Inr (addresses @ ?peer # r2)"
      by auto
    show ?thesis
      using False l r1 r2 by (simp add: unpack_le_def unpack_be_def Let_def)
  qed
qed

lemma addr_loop_break:
  "offset + 30 > length data \<Longrightarrow> addr_loop n data offset addresses = Inr addresses"
  by (cases n) simp_all

lemma parse_addr_message_total: "\<exists>r. parse_addr_message data = Inr r"
proof (cases "varint_decode data 0")
  case (Inl e)
  then show ?thesis
    by (cases e) (simp_all add: parse_addr_message_def parse_addr_body_def)
next
  case (Inr p)
  obtain count offset where p: "p = (count, offset)" by (cases p)
  from addr_loop_extends [of "nat (min count 1000)" data offset "[]"]
  obtain r where "addr_loop (nat (min count 1000)) data offset [] = Inr r" by auto
  with Inr p show ?thesis
    by (simp add: parse_addr_message_def parse_addr_body_def)
qed

lemma parse_addr_message_bad_count:
  "varint_decode data 0 = Inl e \<Longrightarrow> parse_addr_message data = Inr []"
  by (cases e) (simp_all add: parse_addr_message_def parse_addr_body_def)

lemma process_frames_total: "\<exists>r. process_frames addr_data offset new_peers = Inr r"
proof (induction addr_data offset new_peers rule: process_frames.induct)
  case (1 addr_data offset new_peers)
  show ?case
  proof (cases "offset < length addr_data")
    case False
    then show ?thesis by (subst process_frames.simps) simp
  next
    case True
    obtain m where m: "parse_message (drop offset addr_data) = Inr m"
      using parse_message_total by blast
    show ?thesis
    proof (cases m)
      case None
      with m True show ?thesis
        by (subst process_frames.simps) (simp add: decode_frame_def)
    next
      case (Some cp)
      obtain cmd payload where cp: "cp = (cmd, payload)" by (cases cp)
      have d: "decode_frame addr_data offset
                 = Inr (Some (cmd, payload, offset + (24 + length payload)))"
        using m Some cp by (simp add: decode_frame_def)
      obtain peers where pe: "parse_addr_message payload = Inr peers"
        using parse_addr_message_total by blast
      show ?thesis
      proof (cases "cmd = [0x61, 0x64, 0x64, 0x72]")
        case True
        from "1.IH"(1) [OF \<open>offset < length addr_data\<close> d refl refl refl True pe]
        show ?thesis
          using \<open>offset < length addr_data\<close> d True pe
          by (subst process_frames.simps) simp
      next
        case False
        from "1.IH"(2) [OF \<open>offset < length addr_data\<close> d refl refl refl False]
        show ?thesis
          using \<open>offset < length addr_data\<close> d False
          by (subst process_frames.simps) simp
      qed
    qed
  qed
qed

lemma addr_loop_skip:
  assumes "offset + 30 \<le> length data"
    and "\<not> (take 12 (slice data (offset + 12) (offset + 28)) = replicate 12 0
            \<and> slice (slice data (offset + 12) (offset + 28)) 12 14 = [0xFF, 0xFF])"
  shows "addr_loop (Suc n) data offset addresses = addr_loop n data (offset + 30) addresses"
proof -
  have l: "length (slice data offset (offset + 4)) = 4"
    "length (slice data (offset + 4) (offset + 4 + 8)) = 8"
    using assms(1) by (simp_all add: slice_def)
  show ?thesis
    using assms l by (auto simp: unpack_le_def Let_def ac_simps)
qed

text \<open>
  Claim C5, evaluated on the payload of scenario S4. The record of \<open>10.0.0.1:8333\<close> is
  IPv4-mapped (ten zero bytes, \<open>FF FF\<close>, four address bytes), but the test of
  \<open>parse_addr_message\<close> asks for twelve zero bytes before \<open>FF FF\<close>, so the record is
  skipped like the IPv6 one and nothing is returned. What the test accepts instead is a
  record with twelve zero bytes, \<open>FF FF\<close> and two more bytes, returned with a two-part
  address.
\<close>

theorem parse_addr_s4_returns_nothing:
  "parse_addr_message s4_payload = Inr []
   \<and> parse_addr_message
       ([0x01] @ [0x04, 0x03, 0x02, 0x01] @ [0x01, 0, 0, 0, 0, 0, 0, 0] @
        [0, 0, 0, 0, 0, 0, 0, 0, 0, 0, 0, 0, 0xFF, 0xFF, 0x0A, 0x01] @ [0x20, 0x8D])
     = Inr [(''10.1'', 8333, 0x01020304)]"
  by code_simp

lemma slice_take: "b \<le> m \<Longrightarrow> slice (take m xs) a b = slice xs a b"
  by (simp add: slice_def drop_take min_def)

lemma addr_loop_step:
  assumes "offset + 30 \<le> length data"
  shows "addr_loop (Suc n) data offset addresses
         = addr_loop n data (offset + 4 + 8 + 16 + 2) (addresses @ record_peers data offset)"
proof -
  have l: "length (slice data offset (offset + 4)) = 4"
    "length (slice data (offset + 4) (offset + 4 + 8)) = 8"
    "length (slice data (offset + 4 + 8 + 16) (offset + 4 + 8 + 16 + 2)) = 2"
    using assms by (simp_all add: slice_def)
  show ?thesis
    using assms l by (simp add: unpack_le_def unpack_be_def Let_def record_peers_def)
qed

lemma record_peers_take:
  "offset + 30 \<le> m \<Longrightarrow> record_peers (take m data) offset = record_peers data offset"
proof -
  assume a: "offset + 30 \<le> m"
  have "slice (take m data) (offset + 4 + 8) (offset + 4 + 8 + 16)
          = slice data (offset + 4 + 8) (offset + 4 + 8 + 16)"
    "slice (take m data) (offset + 4 + 8 + 16) (offset + 4 + 8 + 16 + 2)
          = slice data (offset + 4 + 8 + 16) (offset + 4 + 8 + 16 + 2)"
    "slice (take m data) offset (offset + 4) = slice data offset (offset + 4)"
    using a by (simp_all add: slice_take)
  then show ?thesis by (simp only: record_peers_def)
qed

lemma addr_loop_take:
  "\<exists>r r'. addr_loop n (take m data) offset addresses = Inr (addresses @ r)
         \<and> addr_loop n data offset addresses = Inr (addresses @ r @ r')"
proof (induction n arbitrary: offset addresses)
  case 0
  then show ?case by simp
next
  case (Suc n)
  show ?case
  proof (cases "offset + 30 \<le> length (take m data)")
    case False
    then have "offset + 30 > length (take m data)" by linarith
    then have "addr_loop (Suc n) (take m data) offset addresses = Inr addresses"
      by (rule addr_loop_break)
    moreover obtain r where "addr_loop (Suc n) data offset addresses = Inr (addresses @ r)"
      using addr_loop_extends by blast
    ultimately show ?thesis by simp
  next
    case True
    then have m: "offset + 30 \<le> m" and d: "offset + 30 \<le> length data" by simp_all
    let ?ps = "record_peers data offset"
    from Suc.IH [of "offset + 4 + 8 + 16 + 2" "addresses @ ?ps"]
    obtain r r' where
      a: "addr_loop n (take m data) (offset + 4 + 8 + 16 + 2) (addresses @ ?ps)
            = Inr ((addresses @ ?ps) @ r)" and
      b: "addr_loop n data (offset + 4 + 8 + 16 + 2) (addresses @ ?ps)
            = Inr ((addresses @ ?ps) @ r @ r')"
      by blast
    have "addr_loop (Suc n) (take m data) offset addresses = Inr (addresses @ (?ps @ r))"
      using addr_loop_step [OF True, of n addresses] a by (simp add: record_peers_take [OF m])
    moreover have "addr_loop (Suc n) data offset addresses = Inr (addresses @ (?ps @ r) @ r')"
      using addr_loop_step [OF d, of n addresses] b by simp
    ultimately show ?thesis by blast
  qed
qed

lemma varint_decode_take:
  assumes "varint_decode data 0 = Inr (count, off)" and "off \<le> m"
  shows "varint_decode (take m data) 0 = Inr (count, off)"
proof -
  from assms(1) have o: "off = 1 \<or> off = 3 \<or> off = 5 \<or> off = 9" and l: "off \<le> length data"
    by (auto simp: varint_decode_def Let_def Suc_le_eq split: if_splits sum.splits)
  have n: "take m data ! 0 = data ! 0" using o assms(2) by auto
  have s: "slice (take m data) (Suc 0) off = slice data (Suc 0) off"
    using assms(2) by (rule slice_take)
  have lt: "off \<le> length (take m data)" using l assms(2) by simp
  from assms(1) o have
    "(off = 1 \<and> data ! 0 < 0xFD) \<or> (off = 3 \<and> data ! 0 = 0xFD) \<or> (off = 5 \<and> data ! 0 = 0xFE)
     \<or> (off = 9 \<and> \<not> data ! 0 < 0xFD \<and> data ! 0 \<noteq> 0xFD \<and> data ! 0 \<noteq> 0xFE)"
    by (auto simp: varint_decode_def Let_def split: if_splits sum.splits)
  then show ?thesis
    using assms(1) n s lt l
    by (auto simp: varint_decode_def Let_def split: if_splits sum.splits)
qed

lemma parse_addr_message_loop:
  assumes "varint_decode data 0 = Inr (count, off)"
  shows "parse_addr_message data = addr_loop (nat (min count 1000)) data off []"
proof -
  from assms have l: "\<not> length data < 1"
    by (auto simp: varint_decode_def split: if_splits)
  obtain r where "addr_loop (nat (min count 1000)) data off [] = Inr r"
    using addr_loop_extends [of "nat (min count 1000)" data off "[]"] by auto
  with assms l show ?thesis by (simp add: parse_addr_message_def parse_addr_body_def)
qed

lemma parse_addr_message_truncated:
  assumes "varint_decode data 0 = Inr (count, off)" and "off \<le> m"
  shows "\<exists>r r'. parse_addr_message (take m data) = Inr r \<and> parse_addr_message data = Inr (r @ r')"
proof -
  note t = varint_decode_take [OF assms]
  from addr_loop_take [of "nat (min count 1000)" m data off "[]"]
  show ?thesis
    by (simp add: parse_addr_message_loop [OF assms(1)] parse_addr_message_loop [OF t])
qed

lemma two_full: "parse_addr_message two_records
   = Inr [(''10.1'', 8333, 0x01020304), (''10.2'', 8334, 0x05060708)]"
  by code_simp

lemma two_cut: "parse_addr_message (take 40 two_records) = Inr [(''10.1'', 8333, 0x01020304)]"
  by code_simp

lemma two_count: "varint_decode two_records 0 = Inr (2, 1)"
  by code_simp

text \<open>
  Claim C8. \<open>parse_addr_message\<close> never raises. When the var-int count is truncated it
  returns the empty list (nothing had been parsed). When the count decodes, it returns
  what its loop returns from the empty list, and a payload cut short at any point after
  the count returns a prefix of what the whole payload returns: the addresses parsed up
  to the cut. The loop returns the addresses it already had followed by those it parsed;
  it returns exactly the addresses it already had when fewer than 30 bytes are left for
  the next record, and otherwise goes on 30 bytes further with the peers of the record
  appended. The frame loop of the session that consumes the result returns normally as
  well.
\<close>

theorem parse_addr_never_raises:
  "(\<exists>r. parse_addr_message data = Inr r)
   \<and> ((\<exists>e. varint_decode data 0 = Inl e) \<longrightarrow> parse_addr_message data = Inr [])
   \<and> (varint_decode data 0 = Inr (count, off) \<longrightarrow>
        parse_addr_message data = addr_loop (nat (min count 1000)) data off []
        \<and> (off \<le> m \<longrightarrow>
             (\<exists>r r'. parse_addr_message (take m data) = Inr r
                    \<and> parse_addr_message data = Inr (r @ r'))))
   \<and> (\<exists>r. addr_loop n buf offset addresses = Inr (addresses @ r))
   \<and> (offset + 30 > length buf \<longrightarrow> addr_loop n buf offset addresses = Inr addresses)
   \<and> (offset + 30 \<le> length buf \<longrightarrow>
        addr_loop (Suc n) buf offset addresses
        = addr_loop n buf (offset + 30) (addresses @ record_peers buf offset))
   \<and> (\<exists>r. process_frames addr_data start new_peers = Inr r)"
proof -
  have s: "offset + 30 \<le> length buf \<longrightarrow>
        addr_loop (Suc n) buf offset addresses
        = addr_loop n buf (offset + 30) (addresses @ record_peers buf offset)"
    using addr_loop_step [of offset buf n addresses] by (simp add: ac_simps)
  from s show ?thesis
    using parse_addr_message_total [of data] parse_addr_message_bad_count [of data]
      parse_addr_message_loop [of data count off]
      parse_addr_message_truncated [of data count off m]
      addr_loop_extends [of n buf offset addresses] addr_loop_break [of buf offset n addresses]
      process_frames_total [of addr_data start new_peers]
    by blast
qed

theorem parse_addr_never_raises_witness:
  "varint_decode two_records 0 = Inr (2, 1) \<and> (1::nat) \<le> 40
   \<and> parse_addr_message two_records = addr_loop (nat (min 2 1000)) two_records 1 []
   \<and> parse_addr_message (take 40 two_records) = Inr [(''10.1'', 8333, 0x01020304)]
   \<and> parse_addr_message two_records
       = Inr ([(''10.1'', 8333, 0x01020304)] @ [(''10.2'', 8334, 0x05060708)])
   \<and> (\<exists>r r'. parse_addr_message (take 40 two_records) = Inr r
             \<and> parse_addr_message two_records = Inr (r @ r'))
   \<and> (\<exists>e. varint_decode [0xFD, 0x01] 0 = Inl e)
   \<and> parse_addr_message [0xFD, 0x01] = Inr []
   \<and> 31 + 30 > length (take 40 two_records)
   \<and> addr_loop 1 (take 40 two_records) 31 [(''10.1'', 8333, 0x01020304)]
       = Inr [(''10.1'', 8333, 0x01020304)]"
proof -
  have v: "varint_decode [0xFD, 0x01] 0 = Inl ValueError"
    by (simp add: varint_decode_def)
  have l: "31 + 30 > length (take 40 two_records)" by simp
  note a = parse_addr_never_raises [of two_records 2 1 40 1 "take 40 two_records" 31
      "[(''10.1'', 8333, 0x01020304)]" "[]" 0 "[]"]
  note b = parse_addr_never_raises [of "[0xFD, 0x01]" 0 0 0 0 "[]" 0 "[]" "[]" 0 "[]"]
  have le: "(1::nat) \<le> 40" by simp
  from a two_count l le have
    "parse_addr_message two_records = addr_loop (nat (min 2 1000)) two_records 1 []"
    "\<exists>r r'. parse_addr_message (take 40 two_records) = Inr r
           \<and> parse_addr_message two_records = Inr (r @ r')"
    "addr_loop 1 (take 40 two_records) 31 [(''10.1'', 8333, 0x01020304)]
       = Inr [(''10.1'', 8333, 0x01020304)]"
    by blast+
  moreover from b v have "parse_addr_message [0xFD, 0x01] = Inr []" by blast
  ultimately show ?thesis using v l two_count two_full two_cut by simp
qed

section \<open>The crawler: invariants of the registry\<close>

lemma offer_peer_fields:
  "crawled_nodes (offer_peer ipa c p) = crawled_nodes c"
  "failed_nodes (offer_peer ipa c p) = failed_nodes c"
  "max_concurrent (offer_peer ipa c p) = max_concurrent c"
  "discovered_nodes c \<subseteq> discovered_nodes (offer_peer ipa c p)"
  by (cases p; auto)+

lemma offer_peer_routable:
  "\<forall>ep \<in> discovered_nodes c. \<not> is_private_ip ipa (fst ep) \<Longrightarrow>
   \<forall>ep \<in> discovered_nodes (offer_peer ipa c p). \<not> is_private_ip ipa (fst ep)"
  by (cases p) auto

lemma offer_peers_fields:
  "crawled_nodes (foldl (offer_peer ipa) c ps) = crawled_nodes c"
  "failed_nodes (foldl (offer_peer ipa) c ps) = failed_nodes c"
  "max_concurrent (foldl (offer_peer ipa) c ps) = max_concurrent c"
  "discovered_nodes c \<subseteq> discovered_nodes (foldl (offer_peer ipa) c ps)"
proof (induction ps arbitrary: c)
  case Nil
  { case 1 show ?case by simp }
  { case 2 show ?case by simp }
  { case 3 show ?case by simp }
  { case 4 show ?case by simp }
next
  case (Cons p ps)
  { case 1 show ?case by (simp add: Cons.IH(1) offer_peer_fields) }
  { case 2 show ?case by (simp add: Cons.IH(2) offer_peer_fields) }
  { case 3 show ?case by (simp add: Cons.IH(3) offer_peer_fields) }
  { case 4 show ?case
      using Cons.IH(4) [of "offer_peer ipa c p"] offer_peer_fields(4) [of c ipa p] by auto }
qed

lemma offer_peers_routable:
  "\<forall>ep \<in> discovered_nodes c. \<not> is_private_ip ipa (fst ep) \<Longrightarrow>
   \<forall>ep \<in> discovered_nodes (foldl (offer_peer ipa) c ps). \<not> is_private_ip ipa (fst ep)"
proof (induction ps arbitrary: c)
  case Nil
  then show ?case by simp
next
  case (Cons p ps)
  from Cons.IH [OF offer_peer_routable [OF Cons.prems, of p]] show ?case by simp
qed

lemma session_end_inv:
  assumes "session_end ipa ep out c = (c', r)" "crawl_inv ipa c" "ep \<in> crawled_nodes c"
  shows "crawl_inv ipa c'" "crawled_nodes c' = crawled_nodes c"
    "discovered_nodes c \<subseteq> discovered_nodes c'" "max_concurrent c' = max_concurrent c"
proof -
  show "crawl_inv ipa c'"
    using assms offer_peers_routable [of c ipa]
    by (cases out) (auto simp: crawl_inv_def offer_peers_fields)
  show "crawled_nodes c' = crawled_nodes c"
    using assms by (cases out) (auto simp: offer_peers_fields)
  show "discovered_nodes c \<subseteq> discovered_nodes c'"
    using assms offer_peers_fields(4) [of c ipa] by (cases out) auto
  show "max_concurrent c' = max_concurrent c"
    using assms by (cases out) (auto simp: offer_peers_fields)
qed

lemma run_events_inv:
  assumes "run_events ipa evs c fl res = Some (c', fl', res')"
    and "crawl_inv ipa c" and "fl \<subseteq> crawled_nodes c"
  shows "crawl_inv ipa c' \<and> crawled_nodes c' = crawled_nodes c \<union> set (begins evs)
         \<and> discovered_nodes c \<subseteq> discovered_nodes c' \<and> max_concurrent c' = max_concurrent c"
  using assms
proof (induction evs arbitrary: c fl res)
  case Nil
  then show ?case by simp
next
  case (Cons ev evs)
  show ?case
  proof (cases ev)
    case (Begin ep)
    show ?thesis
    proof (cases "ep \<in> crawled_nodes c")
      case True
      with Cons.prems Begin have "run_events ipa evs c fl res = Some (c', fl', res')"
        by (simp add: session_begin_def)
      from Cons.IH [OF this Cons.prems(2,3)] True Begin show ?thesis by auto
    next
      case False
      let ?c1 = "c\<lparr>crawled_nodes := insert ep (crawled_nodes c)\<rparr>"
      from False Cons.prems Begin
      have r: "run_events ipa evs ?c1 (insert ep fl) res = Some (c', fl', res')"
        by (simp add: session_begin_def)
      have i: "crawl_inv ipa ?c1" using Cons.prems(2) by (auto simp: crawl_inv_def)
      have f: "insert ep fl \<subseteq> crawled_nodes ?c1" using Cons.prems(3) by auto
      from Cons.IH [OF r i f] Begin show ?thesis by auto
    qed
  next
    case (End ep out)
    with Cons.prems have m: "ep \<in> fl" by (auto split: if_splits)
    obtain c1 r where se: "session_end ipa ep out c = (c1, r)" by (cases "session_end ipa ep out c")
    have epc: "ep \<in> crawled_nodes c" using m Cons.prems(3) by auto
    note s = session_end_inv [OF se Cons.prems(2) epc]
    from Cons.prems(1) End m se
    obtain res1 where r: "run_events ipa evs c1 (fl - {ep}) res1 = Some (c', fl', res')"
      by (cases r) auto
    have f: "fl - {ep} \<subseteq> crawled_nodes c1" using Cons.prems(3) s(2) by auto
    from Cons.IH [OF r s(1) f] s End show ?thesis by auto
  qed
qed

lemma run_batch_inv:
  assumes "run_batch ipa to_crawl events c = Some c'" and "crawl_inv ipa c"
  shows "crawl_inv ipa c'" "crawled_nodes c' = crawled_nodes c \<union> set to_crawl"
    "discovered_nodes c \<subseteq> discovered_nodes c'" "max_concurrent c' = max_concurrent c"
proof -
  from assms(1) obtain c1 fl res where
    b: "begins events = to_crawl" and
    r: "run_events ipa events c {} Map.empty = Some (c1, fl, res)" and
    c': "c' = c1\<lparr>node_data := node_data c1 @ List.map_filter res to_crawl\<rparr>"
    by (auto simp: run_batch_def split: if_splits option.splits)
  from run_events_inv [OF r assms(2)] b
  have i: "crawl_inv ipa c1" "crawled_nodes c1 = crawled_nodes c \<union> set to_crawl"
    "discovered_nodes c \<subseteq> discovered_nodes c1" "max_concurrent c1 = max_concurrent c"
    by auto
  show "crawl_inv ipa c'" using i(1) c' by (simp add: crawl_inv_def)
  show "crawled_nodes c' = crawled_nodes c \<union> set to_crawl" using i(2) c' by simp
  show "discovered_nodes c \<subseteq> discovered_nodes c'" using i(3) c' by simp
  show "max_concurrent c' = max_concurrent c" using i(4) c' by simp
qed

lemma seed_phase_fields:
  "crawled_nodes (seed_phase ipa seeds c) = crawled_nodes c"
  "failed_nodes (seed_phase ipa seeds c) = failed_nodes c"
  "max_concurrent (seed_phase ipa seeds c) = max_concurrent c"
  unfolding seed_phase_def
  by (induction seeds arbitrary: c; simp add: seed_step_def)+

lemma seed_phase_routable:
  "\<forall>ep \<in> discovered_nodes c. \<not> is_private_ip ipa (fst ep) \<Longrightarrow>
   \<forall>ep \<in> discovered_nodes (seed_phase ipa seeds c). \<not> is_private_ip ipa (fst ep)"
  unfolding seed_phase_def
proof (induction seeds arbitrary: c)
  case Nil
  then show ?case by simp
next
  case (Cons s seeds)
  have "\<forall>ep \<in> discovered_nodes (seed_step ipa c s). \<not> is_private_ip ipa (fst ep)"
    using Cons.prems by (auto simp: seed_step_def)
  from Cons.IH [OF this] show ?case by simp
qed

lemma seed_phase_discovered:
  "discovered_nodes c \<subseteq> discovered_nodes (seed_phase ipa seeds c)"
  unfolding seed_phase_def
proof (induction seeds arbitrary: c)
  case Nil
  then show ?case by simp
next
  case (Cons s seeds)
  from Cons [of "seed_step ipa c s"] show ?case by (auto simp: seed_step_def split: if_splits)
qed

lemma seed_phase_inv:
  "crawl_inv ipa c \<Longrightarrow> crawl_inv ipa (seed_phase ipa seeds c)"
  using seed_phase_routable [of c ipa seeds]
  by (simp add: crawl_inv_def seed_phase_fields)

lemma new_crawler_inv:
  "new_crawler mc = Inr c \<Longrightarrow>
   crawl_inv ipa c \<and> crawled_nodes c = {} \<and> discovered_nodes c = {} \<and> failed_nodes c = {}
   \<and> max_concurrent c = mc \<and> 0 \<le> mc"
  by (auto simp: new_crawler_def crawl_inv_def split: if_splits)


lemma slice_len_le: "0 \<le> k \<Longrightarrow> slice_len n k \<le> k"
  by (simp add: slice_len_def)

lemma loop_boundaries_Nil: "loop_boundaries ipa mn [] c = [c]"
  by (subst loop_boundaries.simps) simp

lemma crawl_loop_Nil: "crawl_loop ipa mn [] c = Some c' \<Longrightarrow> c' = c"
  by (subst (asm) crawl_loop.simps) (simp split: if_splits)

lemma loop_boundaries_Cons:
  "loop_boundaries ipa mn ((to_crawl, events) # rest) c =
     c # (if int (card (crawled_nodes c)) < mn \<and> discovered_nodes c \<noteq> {} then
            (if \<not> valid_selection c to_crawl then []
             else if to_crawl = [] then []
             else (case run_batch ipa to_crawl events c of
                     None \<Rightarrow> []
                   | Some c' \<Rightarrow> loop_boundaries ipa mn rest c'))
          else [])"
  by (subst loop_boundaries.simps) simp

lemma crawl_loop_Cons:
  "crawl_loop ipa mn ((to_crawl, events) # rest) c =
     (if int (card (crawled_nodes c)) < mn \<and> discovered_nodes c \<noteq> {} then
        (if \<not> valid_selection c to_crawl then None
         else if to_crawl = [] then Some c
         else (case run_batch ipa to_crawl events c of
                 None \<Rightarrow> None
               | Some c' \<Rightarrow> crawl_loop ipa mn rest c'))
      else Some c)"
  by (subst crawl_loop.simps) simp

lemma loop_boundaries_inv:
  assumes "crawl_inv ipa c" "crawled_nodes c \<subseteq> discovered_nodes c"
    and "s \<in> set (loop_boundaries ipa mn env c)"
  shows "crawl_inv ipa s \<and> crawled_nodes s \<subseteq> discovered_nodes s"
  using assms
proof (induction env arbitrary: c)
  case Nil
  then show ?case by (simp add: loop_boundaries_Nil)
next
  case (Cons e env)
  obtain to_crawl events where e: "e = (to_crawl, events)" by (cases e)
  from Cons.prems(3) consider "s = c"
    | c1 where "valid_selection c to_crawl" "run_batch ipa to_crawl events c = Some c1"
        "s \<in> set (loop_boundaries ipa mn env c1)"
    by (fastforce simp: e loop_boundaries_Cons split: if_splits option.splits)
  then show ?case
  proof cases
    case 1
    with Cons.prems show ?thesis by simp
  next
    case 2
    note b = run_batch_inv [OF 2(2) Cons.prems(1)]
    have "set to_crawl \<subseteq> discovered_nodes c" using 2(1) by (auto simp: valid_selection_def)
    with b(2,3) Cons.prems(2) have "crawled_nodes c1 \<subseteq> discovered_nodes c1" by auto
    from Cons.IH [OF b(1) this 2(3)] show ?thesis .
  qed
qed

lemma crawl_loop_bound:
  assumes "crawl_loop ipa mn env c = Some c'" and "crawl_inv ipa c" and "0 \<le> max_concurrent c"
  shows "int (card (crawled_nodes c')) \<le> max (int (card (crawled_nodes c))) (mn + max_concurrent c - 1)"
  using assms
proof (induction env arbitrary: c)
  case Nil
  from crawl_loop_Nil [OF Nil(1)] show ?case by simp
next
  case (Cons e env)
  obtain to_crawl events where e: "e = (to_crawl, events)" by (cases e)
  from Cons.prems(1) consider "c' = c"
    | c1 where "int (card (crawled_nodes c)) < mn" "valid_selection c to_crawl"
        "run_batch ipa to_crawl events c = Some c1" "crawl_loop ipa mn env c1 = Some c'"
    by (fastforce simp: e crawl_loop_Cons split: if_splits option.splits)
  then show ?case
  proof cases
    case 1
    then show ?thesis by simp
  next
    case 2
    note b = run_batch_inv [OF 2(3) Cons.prems(2)]
    have fin: "finite (crawled_nodes c)" using Cons.prems(2) by (simp add: crawl_inv_def)
    have "int (length to_crawl) \<le> max_concurrent c"
      using 2(2) slice_len_le [OF Cons.prems(3)] by (simp add: valid_selection_def)
    moreover have "card (crawled_nodes c1) \<le> card (crawled_nodes c) + length to_crawl"
      using b(2) card_Un_le [of "crawled_nodes c" "set to_crawl"] card_length [of to_crawl]
      by simp
    ultimately have c1: "int (card (crawled_nodes c1)) \<le> mn + max_concurrent c - 1"
      using 2(1) by linarith
    have "0 \<le> max_concurrent c1" using b(4) Cons.prems(3) by simp
    from Cons.IH [OF 2(4) b(1) this] b(4) c1 show ?thesis by simp
  qed
qed

lemma crawl_final_is_boundary:
  "crawl_loop ipa mn env c = Some c' \<Longrightarrow> c' \<in> set (loop_boundaries ipa mn env c)"
proof (induction env arbitrary: c)
  case Nil
  from crawl_loop_Nil [OF Nil] show ?case by (simp add: loop_boundaries_Nil)
next
  case (Cons e env)
  obtain to_crawl events where e: "e = (to_crawl, events)" by (cases e)
  from Cons.prems consider "c' = c"
    | c1 where "int (card (crawled_nodes c)) < mn" "discovered_nodes c \<noteq> {}"
        "valid_selection c to_crawl" "to_crawl \<noteq> []"
        "run_batch ipa to_crawl events c = Some c1" "crawl_loop ipa mn env c1 = Some c'"
    by (fastforce simp: e crawl_loop_Cons split: if_splits option.splits)
  then show ?case
  proof cases
    case 1
    then show ?thesis by (simp add: e loop_boundaries_Cons)
  next
    case 2
    from Cons.IH [OF 2(6)] 2(1-5) show ?thesis
      by (simp add: e loop_boundaries_Cons)
  qed
qed

lemma fresh_boundaries:
  assumes "new_crawler mc = Inr c0" and "s \<in> set (crawl_boundaries ipa seeds mn env c0)"
  shows "crawl_inv ipa s \<and> crawled_nodes s \<subseteq> discovered_nodes s"
proof -
  note n = new_crawler_inv [OF assms(1), of ipa]
  have i: "crawl_inv ipa (seed_phase ipa seeds c0)" using n by (simp add: seed_phase_inv)
  have "crawled_nodes (seed_phase ipa seeds c0) \<subseteq> discovered_nodes (seed_phase ipa seeds c0)"
    using n by (simp add: seed_phase_fields)
  from loop_boundaries_inv [OF i this] assms(2) show ?thesis
    by (simp add: crawl_boundaries_def)
qed

lemma fresh_crawl_bound:
  assumes "new_crawler mc = Inr c0" and "crawl ipa seeds mn env c0 = Some c'"
    and "1 \<le> mn + mc"
  shows "int (card (crawled_nodes c')) \<le> mn + mc - 1"
proof -
  note n = new_crawler_inv [OF assms(1), of ipa]
  have i: "crawl_inv ipa (seed_phase ipa seeds c0)" using n by (simp add: seed_phase_inv)
  have m: "0 \<le> max_concurrent (seed_phase ipa seeds c0)" using n by (simp add: seed_phase_fields)
  from crawl_loop_bound [OF assms(2) [unfolded crawl_def] i m] n assms(3)
  show ?thesis by (simp add: seed_phase_fields)
qed

lemma ex_private: "is_private_ip example_parser ''8.8.8.8'' = False"
  "is_private_ip example_parser ''1.1.1.1'' = False"
  "is_private_ip example_parser ''10.0.0.1'' = True"
  "is_private_ip example_parser ''not an ip'' = True"
  by (simp_all add: is_private_ip_def example_parser_def)

lemma run2_seed:
  "seed_phase example_parser [ep_a, ep_b] fresh2 = fresh2\<lparr>discovered_nodes := {ep_b, ep_a}\<rparr>"
  by (simp add: seed_phase_def seed_step_def ep_a_def ep_b_def ex_private fresh2_def)

lemma run2_valid: "valid_selection (fresh2\<lparr>discovered_nodes := {ep_b, ep_a}\<rparr>) [ep_a, ep_b]"
  by (auto simp: valid_selection_def fresh2_def ep_a_def ep_b_def slice_len_def)

lemma run2_batch:
  "run_batch example_parser [ep_a, ep_b] (snd (hd env2)) (fresh2\<lparr>discovered_nodes := {ep_b, ep_a}\<rparr>)
   = Some after2"
  by (simp add: run_batch_def env2_def session_begin_def fresh2_def after2_def ex_private
      ep_a_def ep_b_def List.map_filter_def)

lemma run2_crawl: "crawl example_parser [ep_a, ep_b] 1 env2 fresh2 = Some after2"
proof -
  have e: "env2 = ([ep_a, ep_b], snd (hd env2)) # []" by (simp add: env2_def)
  have n: "ep_a \<noteq> ep_b" by (simp add: ep_a_def ep_b_def)
  have l: "crawl_loop example_parser 1 [] after2 = Some after2"
    using n by (subst crawl_loop.simps) (simp add: after2_def)
  have "crawl_loop example_parser 1 (([ep_a, ep_b], snd (hd env2)) # [])
          (fresh2\<lparr>discovered_nodes := {ep_b, ep_a}\<rparr>) = Some after2"
    using run2_valid run2_batch l by (simp add: crawl_loop_Cons) (simp add: fresh2_def)
  with e show ?thesis by (simp add: crawl_def run2_seed)
qed

lemma run2_boundaries:
  "crawl_boundaries example_parser [ep_a, ep_b] 1 env2 fresh2
   = [fresh2\<lparr>discovered_nodes := {ep_b, ep_a}\<rparr>, after2]"
proof -
  have e: "env2 = ([ep_a, ep_b], snd (hd env2)) # []" by (simp add: env2_def)
  have "loop_boundaries example_parser 1 (([ep_a, ep_b], snd (hd env2)) # [])
          (fresh2\<lparr>discovered_nodes := {ep_b, ep_a}\<rparr>)
        = [fresh2\<lparr>discovered_nodes := {ep_b, ep_a}\<rparr>, after2]"
    using run2_valid run2_batch
    by (simp add: loop_boundaries_Cons loop_boundaries_Nil) (simp add: fresh2_def)
  with e show ?thesis by (simp add: crawl_boundaries_def run2_seed)
qed

lemma fresh2_new: "new_crawler 2 = Inr fresh2"
  by (simp add: new_crawler_def fresh2_def)

lemma session_end_sets:
  assumes "session_end ipa ep out c = (c', r)"
  shows "crawled_nodes c' = crawled_nodes c" "discovered_nodes c \<subseteq> discovered_nodes c'"
proof -
  show "crawled_nodes c' = crawled_nodes c"
    using assms by (cases out) (auto simp: offer_peers_fields)
  show "discovered_nodes c \<subseteq> discovered_nodes c'"
    using assms offer_peers_fields(4) [of c ipa] by (cases out) auto
qed

lemma run_events_sets:
  assumes "run_events ipa evs c fl res = Some (c', fl', res')"
  shows "crawled_nodes c' = crawled_nodes c \<union> set (begins evs)
         \<and> discovered_nodes c \<subseteq> discovered_nodes c'"
  using assms
proof (induction evs arbitrary: c fl res)
  case Nil
  then show ?case by simp
next
  case (Cons ev evs)
  show ?case
  proof (cases ev)
    case (Begin ep)
    show ?thesis
    proof (cases "ep \<in> crawled_nodes c")
      case True
      with Cons.prems Begin have "run_events ipa evs c fl res = Some (c', fl', res')"
        by (simp add: session_begin_def)
      from Cons.IH [OF this] True Begin show ?thesis by auto
    next
      case False
      let ?c1 = "c\<lparr>crawled_nodes := insert ep (crawled_nodes c)\<rparr>"
      from False Cons.prems Begin
      have r: "run_events ipa evs ?c1 (insert ep fl) res = Some (c', fl', res')"
        by (simp add: session_begin_def)
      from Cons.IH [OF r] Begin show ?thesis by auto
    qed
  next
    case (End ep out)
    with Cons.prems have m: "ep \<in> fl" by (auto split: if_splits)
    obtain c1 r where se: "session_end ipa ep out c = (c1, r)" by (cases "session_end ipa ep out c")
    note s = session_end_sets [OF se]
    from Cons.prems(1) End m se
    obtain res1 where r: "run_events ipa evs c1 (fl - {ep}) res1 = Some (c', fl', res')"
      by (cases r) auto
    from Cons.IH [OF r] s End show ?thesis by auto
  qed
qed

lemma run_batch_sets:
  assumes "run_batch ipa to_crawl events c = Some c'"
  shows "crawled_nodes c' = crawled_nodes c \<union> set to_crawl"
    "discovered_nodes c \<subseteq> discovered_nodes c'"
proof -
  from assms obtain c1 fl res where
    b: "begins events = to_crawl" and
    r: "run_events ipa events c {} Map.empty = Some (c1, fl, res)" and
    c': "c' = c1\<lparr>node_data := node_data c1 @ List.map_filter res to_crawl\<rparr>"
    by (auto simp: run_batch_def split: if_splits option.splits)
  from run_events_sets [OF r] b c'
  show "crawled_nodes c' = crawled_nodes c \<union> set to_crawl"
    "discovered_nodes c \<subseteq> discovered_nodes c'"
    by auto
qed

text \<open>
  Claim C1, as amended. At every iteration boundary of \<open>crawl\<close> on a freshly constructed
  crawler (after the seed phase and after each awaited batch), \<open>failed \<subseteq> crawled\<close> and
  \<open>crawled \<subseteq> discovered\<close>: an endpoint selected for a session is added to \<open>crawled\<close> and
  stays in \<open>discovered\<close>, from which nothing is ever removed (a batch adds exactly the
  selected endpoints to \<open>crawled\<close> and only adds to \<open>discovered\<close>).
\<close>

theorem registry_sets_at_boundaries:
  "new_crawler mc = Inr c0 \<Longrightarrow>
   s \<in> set (crawl_boundaries ip_address seed_nodes max_nodes env c0) \<Longrightarrow>
   failed_nodes s \<subseteq> crawled_nodes s \<and> crawled_nodes s \<subseteq> discovered_nodes s
   \<and> (run_batch ip_address to_crawl events s = Some s' \<longrightarrow>
        crawled_nodes s' = crawled_nodes s \<union> set to_crawl
        \<and> discovered_nodes s \<subseteq> discovered_nodes s')"
  using fresh_boundaries [of mc c0 s ip_address seed_nodes max_nodes env]
    run_batch_sets [of ip_address to_crawl events s s']
  by (simp add: crawl_inv_def)

theorem registry_sets_at_boundaries_witness:
  "new_crawler 2 = Inr fresh2
   \<and> after2 \<in> set (crawl_boundaries example_parser [ep_a, ep_b] 1 env2 fresh2)
   \<and> failed_nodes after2 \<subseteq> crawled_nodes after2
   \<and> crawled_nodes after2 \<subseteq> discovered_nodes after2
   \<and> fresh2\<lparr>discovered_nodes := {ep_b, ep_a}\<rparr>
       \<in> set (crawl_boundaries example_parser [ep_a, ep_b] 1 env2 fresh2)
   \<and> run_batch example_parser [ep_a, ep_b] (snd (hd env2))
        (fresh2\<lparr>discovered_nodes := {ep_b, ep_a}\<rparr>) = Some after2
   \<and> crawled_nodes after2
       = crawled_nodes (fresh2\<lparr>discovered_nodes := {ep_b, ep_a}\<rparr>) \<union> set [ep_a, ep_b]
   \<and> discovered_nodes (fresh2\<lparr>discovered_nodes := {ep_b, ep_a}\<rparr>) \<subseteq> discovered_nodes after2"
proof -
  have m: "after2 \<in> set (crawl_boundaries example_parser [ep_a, ep_b] 1 env2 fresh2)"
    by (simp add: run2_boundaries)
  have m0: "fresh2\<lparr>discovered_nodes := {ep_b, ep_a}\<rparr>
       \<in> set (crawl_boundaries example_parser [ep_a, ep_b] 1 env2 fresh2)"
    by (simp add: run2_boundaries)
  from registry_sets_at_boundaries [OF fresh2_new m, of "[]" "[]" after2]
  have a: "failed_nodes after2 \<subseteq> crawled_nodes after2"
    "crawled_nodes after2 \<subseteq> discovered_nodes after2" by blast+
  from registry_sets_at_boundaries [OF fresh2_new m0, of "[ep_a, ep_b]" "snd (hd env2)" after2]
    run2_batch
  have b: "crawled_nodes after2
       = crawled_nodes (fresh2\<lparr>discovered_nodes := {ep_b, ep_a}\<rparr>) \<union> set [ep_a, ep_b]"
    "discovered_nodes (fresh2\<lparr>discovered_nodes := {ep_b, ep_a}\<rparr>) \<subseteq> discovered_nodes after2"
    by blast+
  from a b m m0 fresh2_new run2_batch show ?thesis by blast
qed

text \<open>
  Claim C1 as stated fails: at the boundary after the batch of the example run, both
  endpoints are in \<open>discovered\<close> and in \<open>crawled\<close>.
\<close>

theorem discovered_meets_crawled:
  "new_crawler 2 = Inr fresh2
   \<and> after2 \<in> set (crawl_boundaries example_parser [ep_a, ep_b] 1 env2 fresh2)
   \<and> discovered_nodes after2 \<inter> crawled_nodes after2 \<noteq> {}"
  by (simp add: fresh2_new run2_boundaries) (simp add: after2_def)

text \<open>
  Claim C6, as amended. For every \<open>crawl\<close> on a freshly constructed crawler that
  terminates, with \<open>max_nodes + max_concurrent \<ge> 1\<close>, the final crawled set has at most
  \<open>max_nodes + max_concurrent - 1\<close> endpoints.
\<close>

theorem crawled_soft_ceiling:
  "new_crawler mc = Inr c0 \<Longrightarrow>
   crawl ip_address seed_nodes max_nodes env c0 = Some c' \<Longrightarrow>
   1 \<le> max_nodes + mc \<Longrightarrow>
   int (card (crawled_nodes c')) \<le> max_nodes + mc - 1"
  by (rule fresh_crawl_bound)

theorem crawled_soft_ceiling_witness:
  "new_crawler 2 = Inr fresh2
   \<and> crawl example_parser [ep_a, ep_b] 1 env2 fresh2 = Some after2
   \<and> (1::int) \<le> 1 + 2
   \<and> int (card (crawled_nodes after2)) \<le> 1 + 2 - 1
   \<and> card (crawled_nodes after2) = 2"
proof -
  have c: "card (crawled_nodes after2) = 2"
    by (simp add: after2_def ep_a_def ep_b_def)
  from crawled_soft_ceiling [OF fresh2_new run2_crawl] fresh2_new run2_crawl c
  show ?thesis by simp
qed

text \<open>
  Claim C6 as stated fails for \<open>max_nodes = 0\<close> and \<open>max_concurrent = 0\<close>: the loop is
  not entered, the crawled set is empty, and the bound would be \<open>-1\<close>.
\<close>

theorem crawled_ceiling_degenerate:
  "new_crawler 0 = Inr fresh0
   \<and> crawl example_parser [] 0 [] fresh0 = Some fresh0
   \<and> \<not> int (card (crawled_nodes fresh0)) \<le> 0 + max_concurrent fresh0 - 1"
proof -
  have "crawl_loop example_parser 0 [] fresh0 = Some fresh0"
    by (subst crawl_loop.simps) (simp add: fresh0_def)
  then show ?thesis
    by (simp add: new_crawler_def crawl_def seed_phase_def) (simp add: fresh0_def)
qed

text \<open>
  Claim C7. On a freshly constructed crawler, every address in \<open>discovered\<close> at any
  iteration boundary (seeds and the peers offered by sessions alike; nothing is ever
  removed from the set) parses as an IP address that is neither private, loopback nor
  link-local: \<open>is_private_ip\<close> rejects the others, a string that does not parse included.
\<close>

theorem discovered_routable:
  "new_crawler mc = Inr c0 \<Longrightarrow>
   s \<in> set (crawl_boundaries ip_address seed_nodes max_nodes env c0) \<Longrightarrow>
   (ip, port) \<in> discovered_nodes s \<Longrightarrow>
   \<not> is_private_ip ip_address ip
   \<and> (\<exists>obj. ip_address ip = Some obj
          \<and> \<not> is_private obj \<and> \<not> is_loopback obj \<and> \<not> is_link_local obj)"
proof -
  assume "new_crawler mc = Inr c0"
    and "s \<in> set (crawl_boundaries ip_address seed_nodes max_nodes env c0)"
    and m: "(ip, port) \<in> discovered_nodes s"
  then have "crawl_inv ip_address s" using fresh_boundaries by blast
  with m have "\<not> is_private_ip ip_address ip" by (auto simp: crawl_inv_def)
  then show ?thesis by (auto simp: is_private_ip_def split: option.splits)
qed

theorem discovered_routable_witness:
  "new_crawler 2 = Inr fresh2
   \<and> after2 \<in> set (crawl_boundaries example_parser [ep_a, ep_b] 1 env2 fresh2)
   \<and> (''1.1.1.1'', 8333) \<in> discovered_nodes after2
   \<and> (''10.0.0.1'', 8333) \<notin> discovered_nodes after2
   \<and> (''not an ip'', 8333) \<notin> discovered_nodes after2
   \<and> \<not> is_private_ip example_parser ''1.1.1.1''
   \<and> (\<exists>obj. example_parser ''1.1.1.1'' = Some obj
          \<and> \<not> is_private obj \<and> \<not> is_loopback obj \<and> \<not> is_link_local obj)"
proof -
  have m: "after2 \<in> set (crawl_boundaries example_parser [ep_a, ep_b] 1 env2 fresh2)"
    by (simp add: run2_boundaries)
  have d: "(''1.1.1.1'', 8333) \<in> discovered_nodes after2"
    by (simp add: after2_def ep_b_def)
  have n: "(''10.0.0.1'', 8333) \<notin> discovered_nodes after2"
    "(''not an ip'', 8333) \<notin> discovered_nodes after2"
    by (simp_all add: after2_def ep_a_def ep_b_def)
  from discovered_routable [OF fresh2_new m d] fresh2_new m d n show ?thesis by simp
qed

section \<open>The verack frame and the safety of the decoder\<close>

lemma sha256_empty:
  "sha256 [] =
     [0xE3, 0xB0, 0xC4, 0x42, 0x98, 0xFC, 0x1C, 0x14, 0x9A, 0xFB, 0xF4, 0xC8, 0x99, 0x6F, 0xB9, 0x24,
      0x27, 0xAE, 0x41, 0xE4, 0x64, 0x9B, 0x93, 0x4C, 0xA4, 0x95, 0x99, 0x1B, 0x78, 0x52, 0xB8, 0x55]"
  by code_simp

lemma sha256_of_sha256_empty:
  "sha256 [0xE3, 0xB0, 0xC4, 0x42, 0x98, 0xFC, 0x1C, 0x14, 0x9A, 0xFB, 0xF4, 0xC8, 0x99, 0x6F, 0xB9, 0x24,
           0x27, 0xAE, 0x41, 0xE4, 0x64, 0x9B, 0x93, 0x4C, 0xA4, 0x95, 0x99, 0x1B, 0x78, 0x52, 0xB8, 0x55] =
     [0x5D, 0xF6, 0xE0, 0xE2, 0x76, 0x13, 0x59, 0xD3, 0x0A, 0x82, 0x75, 0x05, 0x8E, 0x29, 0x9F, 0xCC,
      0x03, 0x81, 0x53, 0x45, 0x45, 0xF5, 0x5C, 0xF4, 0x3E, 0x41, 0x98, 0x3F, 0x5D, 0x4C, 0x94, 0x56]"
  by code_simp

lemma checksum_empty: "take 4 (sha256 (sha256 [])) = [0x5D, 0xF6, 0xE0, 0xE2]"
  by (simp add: sha256_empty sha256_of_sha256_empty)

lemma le_bytes_4:
  "le_bytes 4 v = [word_of_int (v mod 256), word_of_int (v div 256 mod 256),
                   word_of_int (v div 256 div 256 mod 256),
                   word_of_int (v div 256 div 256 div 256 mod 256)]"
  by (simp add: eval_nat_numeral)

text \<open>
  Claim C9. \<open>create_verack_message()\<close> returns exactly the 24 bytes \<open>F9 BE B4 D9\<close>,
  \<open>76 65 72 61 63 6B 00 00 00 00 00 00\<close>, \<open>00 00 00 00\<close>, \<open>5D F6 E0 E2\<close>, the last four
  being the first bytes of the double SHA-256 of the empty payload.
\<close>

theorem verack_frame_bytes:
  "create_verack_message =
     Inr ([0xF9, 0xBE, 0xB4, 0xD9] @
          [0x76, 0x65, 0x72, 0x61, 0x63, 0x6B, 0x00, 0x00, 0x00, 0x00, 0x00, 0x00] @
          [0x00, 0x00, 0x00, 0x00] @
          [0x5D, 0xF6, 0xE0, 0xE2])
   \<and> take 4 (sha256 (sha256 [])) = [0x5D, 0xF6, 0xE0, 0xE2]
   \<and> map_sum id length create_verack_message = Inr 24"
  by (simp add: create_verack_message_def create_message_def pack_le_def checksum_empty
      MSG_VERACK_def MAINNET_MAGIC_def ljust_def le_bytes_4)

lemma parse_verack:
  "parse_message ([0xF9, 0xBE, 0xB4, 0xD9] @
                  [0x76, 0x65, 0x72, 0x61, 0x63, 0x6B, 0x00, 0x00, 0x00, 0x00, 0x00, 0x00] @
                  [0x00, 0x00, 0x00, 0x00] @ [0x5D, 0xF6, 0xE0, 0xE2] @ [])
   = Inr (Some ([0x76, 0x65, 0x72, 0x61, 0x63, 0x6B], []))"
proof -
  have r: "rstrip_nul [0x76, 0x65, 0x72, 0x61, 0x63, 0x6B, 0x00, 0x00, 0x00, 0x00, 0x00, 0x00]
           = [0x76, 0x65, 0x72, 0x61, 0x63, 0x6B]"
    by (simp add: rstrip_nul_def)
  have "parse_message ([0xF9, 0xBE, 0xB4, 0xD9] @
          [0x76, 0x65, 0x72, 0x61, 0x63, 0x6B, 0x00, 0x00, 0x00, 0x00, 0x00, 0x00] @
          [0x00, 0x00, 0x00, 0x00] @ take 4 (sha256 (sha256 [])) @ [])
        = Inr (Some (rstrip_nul [0x76, 0x65, 0x72, 0x61, 0x63, 0x6B, 0x00, 0x00, 0x00, 0x00, 0x00, 0x00], []))"
    by (rule parse_message_frame) (simp_all add: MAINNET_MAGIC_def)
  then show ?thesis by (simp only: r checksum_empty)
qed

text \<open>
  Claim C10. \<open>parse_message\<close> is total: for every byte string it returns \<open>None\<close> or a
  pair and never raises; and when it returns \<open>(command, payload)\<close>, the payload has at
  most 2 MiB and the first four bytes of its double SHA-256 are bytes 20 to 24 of the
  input.
\<close>

theorem parse_message_safe:
  "(\<exists>r. parse_message data = Inr r)
   \<and> (parse_message data = Inr (Some (command, payload)) \<longrightarrow>
        length payload \<le> 2 * 1024 * 1024
        \<and> take 4 (sha256 (sha256 payload)) = slice data 20 24)"
  using parse_message_total [of data] parse_message_Some(1,2) [of data command payload]
  by blast

theorem parse_message_safe_witness:
  "parse_message ([0xF9, 0xBE, 0xB4, 0xD9] @
                  [0x76, 0x65, 0x72, 0x61, 0x63, 0x6B, 0x00, 0x00, 0x00, 0x00, 0x00, 0x00] @
                  [0x00, 0x00, 0x00, 0x00] @ [0x5D, 0xF6, 0xE0, 0xE2] @ [])
     = Inr (Some ([0x76, 0x65, 0x72, 0x61, 0x63, 0x6B], []))
   \<and> length ([] :: bytes) \<le> 2 * 1024 * 1024
   \<and> take 4 (sha256 (sha256 []))
       = slice ([0xF9, 0xBE, 0xB4, 0xD9] @
                [0x76, 0x65, 0x72, 0x61, 0x63, 0x6B, 0x00, 0x00, 0x00, 0x00, 0x00, 0x00] @
                [0x00, 0x00, 0x00, 0x00] @ [0x5D, 0xF6, 0xE0, 0xE2] @ []) 20 24"
  using parse_message_safe [of "[0xF9, 0xBE, 0xB4, 0xD9] @
                  [0x76, 0x65, 0x72, 0x61, 0x63, 0x6B, 0x00, 0x00, 0x00, 0x00, 0x00, 0x00] @
                  [0x00, 0x00, 0x00, 0x00] @ [0x5D, 0xF6, 0xE0, 0xE2] @ []"
                  "[0x76, 0x65, 0x72, 0x61, 0x63, 0x6B]" "[]"] parse_verack
  by blast

end
